theory Spec2Isabelle
  imports Complex_Main
begin

section \<open>Tensors and errors\<close>

text \<open>
  A dense tensor, as the numeric library stores it: its shape and its elements in
  row-major order. The rank is the length of the shape. Scalars are kept polymorphic;
  the operations that take square roots work on \<open>real\<close>.
\<close>

record 'a tensor =
  shape :: "nat list"
  data :: "'a list"

text \<open>
  The exceptions of the source. \<open>check_input\<close> raises a RuntimeError with one of two
  messages; the constructor carries the number the message prints. \<open>TorchError\<close> is a
  RuntimeError raised inside a tensor primitive (operand shapes that do not fit).
  \<open>IndexError\<close> is raised by reading a tuple past its end. \<open>NotModelled\<close> marks a call
  of a library primitive on operand ranks whose library semantics this development does
  not describe.
\<close>

datatype error =
    ShapeError_rank nat
  | ShapeError_div4 nat
  | TorchError
  | IndexError
  | NotModelled
  | ValueError string

definition bnd :: "error + 'a \<Rightarrow> ('a \<Rightarrow> error + 'b) \<Rightarrow> error + 'b" where
  "bnd m f = (case m of Inl e \<Rightarrow> Inl e | Inr v \<Rightarrow> f v)"

definition well_formed :: "'a tensor \<Rightarrow> bool" where
  "well_formed t = (length (data t) = prod_list (shape t))"

definition dim :: "'a tensor \<Rightarrow> nat" where
  "dim t = length (shape t)"

text \<open>\<open>chunks k n xs\<close>: the first \<open>k\<close> consecutive blocks of \<open>n\<close> elements of \<open>xs\<close>.\<close>

definition chunks :: "nat \<Rightarrow> nat \<Rightarrow> 'a list \<Rightarrow> 'a list list" where
  "chunks k n xs = map (\<lambda>b. take n (drop (b * n) xs)) [0..<k]"

text \<open>The rows of a tensor: its blocks along the last axis.\<close>

definition rows :: "'a tensor \<Rightarrow> 'a list list" where
  "rows t = chunks (prod_list (butlast (shape t))) (last (shape t)) (data t)"

text \<open>
  The tensor of shape \<open>pre @ [n]\<close> with the given rows, and the condition on the rows:
  there are as many as \<open>pre\<close> says and each has length \<open>n\<close>.
\<close>

definition of_rows :: "nat list \<Rightarrow> nat \<Rightarrow> 'a list list \<Rightarrow> 'a tensor" where
  "of_rows pre n rs = \<lparr>shape = pre @ [n], data = concat rs\<rparr>"

definition rows_ok :: "nat list \<Rightarrow> nat \<Rightarrow> 'a list list \<Rightarrow> bool" where
  "rows_ok pre n rs = (length rs = prod_list pre \<and> list_all (\<lambda>r. length r = n) rs)"

text \<open>The element at row \<open>b\<close> and position \<open>c\<close> of the last axis.\<close>

definition elem :: "'a tensor \<Rightarrow> nat \<Rightarrow> nat \<Rightarrow> 'a" where
  "elem t b c = rows t ! b ! c"

text \<open>The tensor of shape \<open>pre @ [n]\<close> whose row number \<open>x\<close> is \<open>f x\<close>.\<close>

definition tab :: "nat list \<Rightarrow> nat \<Rightarrow> (nat \<Rightarrow> 'a list) \<Rightarrow> 'a tensor" where
  "tab pre n f = of_rows pre n (map f [0..<prod_list pre])"

text \<open>
  The four components of the quaternion at row \<open>b\<close> and feature \<open>c\<close> of a tensor whose
  last axis has length \<open>4 * H\<close>.
\<close>

definition qr :: "nat \<Rightarrow> 'a tensor \<Rightarrow> nat \<Rightarrow> nat \<Rightarrow> 'a" where
  "qr H t b c = elem t b c"

definition qi :: "nat \<Rightarrow> 'a tensor \<Rightarrow> nat \<Rightarrow> nat \<Rightarrow> 'a" where
  "qi H t b c = elem t b (H + c)"

definition qj :: "nat \<Rightarrow> 'a tensor \<Rightarrow> nat \<Rightarrow> nat \<Rightarrow> 'a" where
  "qj H t b c = elem t b (2 * H + c)"

definition qk :: "nat \<Rightarrow> 'a tensor \<Rightarrow> nat \<Rightarrow> nat \<Rightarrow> 'a" where
  "qk H t b c = elem t b (3 * H + c)"

subsection \<open>Library primitives\<close>

text \<open>
  \<open>t.narrow(d, start, len)\<close>: the slice \<open>[start, start + len)\<close> along axis \<open>d\<close>.
\<close>

definition narrow :: "nat \<Rightarrow> nat \<Rightarrow> nat \<Rightarrow> 'a tensor \<Rightarrow> error + 'a tensor" where
  "narrow d start len t =
     (let sh = shape t in
      if d < length sh \<and> start + len \<le> sh ! d then
        (let inner = prod_list (drop (Suc d) sh);
             outer = prod_list (take d sh);
             blk = sh ! d * inner
         in Inr \<lparr>shape = sh[d := len],
                 data = concat (map (\<lambda>b. take (len * inner)
                                   (drop (b * blk + start * inner) (data t))) [0..<outer])\<rparr>)
      else Inl TorchError)"

text \<open>
  \<open>torch.cat(ts, dim=d)\<close>: all operands have the same rank and the same sizes except
  along axis \<open>d\<close>.
\<close>

definition cat :: "'a tensor list \<Rightarrow> nat \<Rightarrow> error + 'a tensor" where
  "cat ts d =
     (case ts of
        [] \<Rightarrow> Inl TorchError
      | t0 # _ \<Rightarrow>
          (let sh = shape t0 in
           if d < length sh \<and>
              list_all (\<lambda>t. length (shape t) = length sh \<and> (shape t)[d := 0] = sh[d := 0]) ts
           then
             (let outer = prod_list (take d sh);
                  inner = prod_list (drop (Suc d) sh)
              in Inr \<lparr>shape = sh[d := sum_list (map (\<lambda>t. shape t ! d) ts)],
                      data = concat (map (\<lambda>b. concat (map (\<lambda>t.
                                 take (shape t ! d * inner)
                                   (drop (b * (shape t ! d * inner)) (data t))) ts))
                               [0..<outer])\<rparr>)
           else Inl TorchError))"

text \<open>
  Broadcasting of two shapes, aligned at the last axis: sizes must agree or one of them
  is 1. The function works on the reversed shapes.
\<close>

fun bshape_rev :: "nat list \<Rightarrow> nat list \<Rightarrow> nat list option" where
  "bshape_rev [] ys = Some ys"
| "bshape_rev (x # xs) [] = Some (x # xs)"
| "bshape_rev (x # xs) (y # ys) =
     (if x = y \<or> y = 1 then map_option ((#) x) (bshape_rev xs ys)
      else if x = 1 then map_option ((#) y) (bshape_rev xs ys)
      else None)"

definition broadcast_shape :: "nat list \<Rightarrow> nat list \<Rightarrow> nat list option" where
  "broadcast_shape a b = map_option rev (bshape_rev (rev a) (rev b))"

definition pad_shape :: "nat \<Rightarrow> nat list \<Rightarrow> nat list" where
  "pad_shape k sh = replicate (k - length sh) 1 @ sh"

text \<open>
  The elements of a tensor of shape \<open>src\<close> stretched to shape \<open>tgt\<close> (same rank, every
  size of \<open>src\<close> equal to that of \<open>tgt\<close> or 1).
\<close>

fun expand_data :: "nat list \<Rightarrow> nat list \<Rightarrow> 'a list \<Rightarrow> 'a list" where
  "expand_data (s # ss) (t # ts) xs =
     (if s = t
      then concat (map (\<lambda>b. expand_data ss ts
                            (take (prod_list ss) (drop (b * prod_list ss) xs))) [0..<s])
      else concat (replicate t (concat (map (\<lambda>b. expand_data ss ts
                            (take (prod_list ss) (drop (b * prod_list ss) xs))) [0..<s]))))"
| "expand_data _ _ xs = xs"

text \<open>\<open>t.expand(target)\<close> and \<open>t.expand_as(other)\<close>.\<close>

definition expand :: "'a tensor \<Rightarrow> nat list \<Rightarrow> error + 'a tensor" where
  "expand t target =
     (let sh = pad_shape (length target) (shape t) in
      if length (shape t) \<le> length target \<and> list_all2 (\<lambda>s t. s = t \<or> s = 1) sh target
      then Inr \<lparr>shape = target, data = expand_data sh target (data t)\<rparr>
      else Inl TorchError)"

text \<open>An elementwise binary operation, with broadcasting.\<close>

definition tbin :: "('a \<Rightarrow> 'b \<Rightarrow> 'c) \<Rightarrow> 'a tensor \<Rightarrow> 'b tensor \<Rightarrow> error + 'c tensor" where
  "tbin f a b =
     (case broadcast_shape (shape a) (shape b) of
        None \<Rightarrow> Inl TorchError
      | Some sh \<Rightarrow>
          Inr \<lparr>shape = sh,
               data = map2 f (expand_data (pad_shape (length sh) (shape a)) sh (data a))
                             (expand_data (pad_shape (length sh) (shape b)) sh (data b))\<rparr>)"

definition tadd :: "'a::plus tensor \<Rightarrow> 'a tensor \<Rightarrow> error + 'a tensor" where
  "tadd = tbin (+)"

definition tsub :: "'a::minus tensor \<Rightarrow> 'a tensor \<Rightarrow> error + 'a tensor" where
  "tsub = tbin (-)"

definition tmul :: "'a::times tensor \<Rightarrow> 'a tensor \<Rightarrow> error + 'a tensor" where
  "tmul = tbin (*)"

definition tdiv :: "'a::inverse tensor \<Rightarrow> 'a tensor \<Rightarrow> error + 'a tensor" where
  "tdiv = tbin (/)"

definition tneg :: "'a::uminus tensor \<Rightarrow> 'a tensor" where
  "tneg t = \<lparr>shape = shape t, data = map uminus (data t)\<rparr>"

definition tsqrt :: "real tensor \<Rightarrow> real tensor" where
  "tsqrt t = \<lparr>shape = shape t, data = map sqrt (data t)\<rparr>"

text \<open>A tensor plus a number, and a tensor times a number.\<close>

definition tadd_scalar :: "'a::plus tensor \<Rightarrow> 'a \<Rightarrow> 'a tensor" where
  "tadd_scalar t c = \<lparr>shape = shape t, data = map (\<lambda>v. v + c) (data t)\<rparr>"

definition tmul_scalar :: "'a::times tensor \<Rightarrow> 'a \<Rightarrow> 'a tensor" where
  "tmul_scalar t c = \<lparr>shape = shape t, data = map (\<lambda>v. v * c) (data t)\<rparr>"

text \<open>\<open>t.repeat(reps)\<close>: the tensor tiled \<open>reps ! d\<close> times along each axis \<open>d\<close>.\<close>

fun repeat_data :: "nat list \<Rightarrow> nat list \<Rightarrow> 'a list \<Rightarrow> 'a list" where
  "repeat_data (s # ss) (r # rs) xs =
     concat (replicate r (concat (map (\<lambda>b. repeat_data ss rs
                            (take (prod_list ss) (drop (b * prod_list ss) xs))) [0..<s])))"
| "repeat_data _ _ xs = xs"

definition repeat :: "'a tensor \<Rightarrow> nat list \<Rightarrow> error + 'a tensor" where
  "repeat t reps =
     (if length reps < dim t then Inl TorchError
      else (let sh = pad_shape (length reps) (shape t) in
            Inr \<lparr>shape = map2 (*) sh reps, data = repeat_data sh reps (data t)\<rparr>))"

text \<open>\<open>t.sum(dim=0)\<close> and \<open>t.squeeze(0)\<close>.\<close>

definition sum_dim0 :: "'a::monoid_add tensor \<Rightarrow> 'a tensor" where
  "sum_dim0 t =
     (case shape t of
        [] \<Rightarrow> t
      | b # rest \<Rightarrow>
          \<lparr>shape = rest,
           data = map (\<lambda>c. sum_list (map (\<lambda>i. data t ! (i * prod_list rest + c)) [0..<b]))
                      [0..<prod_list rest]\<rparr>)"

definition squeeze0 :: "'a tensor \<Rightarrow> 'a tensor" where
  "squeeze0 t =
     (case shape t of
        [] \<Rightarrow> t
      | s # rest \<Rightarrow> if s = 1 then \<lparr>shape = rest, data = data t\<rparr> else t)"

text \<open>\<open>t.permute(1, 0)\<close>: the transpose of a matrix; any other rank is an error.\<close>

definition permute10 :: "'a tensor \<Rightarrow> error + 'a tensor" where
  "permute10 t =
     (case shape t of
        [n, m] \<Rightarrow>
          Inr \<lparr>shape = [m, n],
               data = concat (map (\<lambda>j. map (\<lambda>i. data t ! (i * m + j)) [0..<n]) [0..<m])\<rparr>
      | _ \<Rightarrow> Inl TorchError)"

text \<open>
  The rows of the left operand times a matrix \<open>b\<close> of shape \<open>[m, p]\<close>: entry \<open>c\<close> of a
  result row is the sum over \<open>k < m\<close> of \<open>row ! k * b[k, c]\<close>.
\<close>

definition row_times :: "nat \<Rightarrow> nat \<Rightarrow> 'a::semiring_0 list \<Rightarrow> 'a list \<Rightarrow> 'a list" where
  "row_times m p bd row =
     map (\<lambda>c. sum_list (map (\<lambda>k. row ! k * bd ! (k * p + c)) [0..<m])) [0..<p]"

text \<open>\<open>torch.mm(a, b)\<close>: both operands are matrices.\<close>

definition mm :: "'a::semiring_0 tensor \<Rightarrow> 'a tensor \<Rightarrow> error + 'a tensor" where
  "mm a b =
     (if dim a = 2 \<and> dim b = 2 \<and> shape a ! 1 = shape b ! 0
      then Inr \<lparr>shape = [shape a ! 0, shape b ! 1],
                data = concat (map (row_times (shape b ! 0) (shape b ! 1) (data b)) (rows a))\<rparr>
      else Inl TorchError)"

text \<open>
  \<open>torch.matmul(a, b)\<close> for a matrix \<open>b\<close> and a left operand of rank 2 or more: the
  matrix product applied to every row of \<open>a\<close>. Other operand ranks are not described.
\<close>

definition matmul :: "'a::semiring_0 tensor \<Rightarrow> 'a tensor \<Rightarrow> error + 'a tensor" where
  "matmul a b =
     (if 2 \<le> dim a \<and> dim b = 2 then
        (if last (shape a) = shape b ! 0
         then Inr \<lparr>shape = butlast (shape a) @ [shape b ! 1],
                   data = concat (map (row_times (shape b ! 0) (shape b ! 1) (data b)) (rows a))\<rparr>
         else Inl TorchError)
      else Inl NotModelled)"

text \<open>\<open>torch.addmm(bias, a, b)\<close>: the bias, expanded to the product's shape, plus the product.\<close>

definition addmm :: "'a::semiring_0 tensor \<Rightarrow> 'a tensor \<Rightarrow> 'a tensor \<Rightarrow> error + 'a tensor" where
  "addmm bias a b =
     bnd (mm a b) (\<lambda>prod.
     bnd (expand bias (shape prod)) (\<lambda>bias_expanded.
     tadd bias_expanded prod))"

section \<open>Quaternion view\<close>

text \<open>
  \<open>check_input\<close> raises on a rank other than 2 or 3 and on a last axis whose length is
  not a multiple of 4. The getters call it first; after it the rank is 2 or 3, so the
  branch for rank 3 is written as the alternative of the branch for rank 2.
\<close>

definition check_input :: "'a tensor \<Rightarrow> error + unit" where
  "check_input input =
     (if dim input \<notin> {2, 3} then Inl (ShapeError_rank (dim input))
      else (let nb_hidden = last (shape input) in
            if nb_hidden mod 4 \<noteq> 0 then Inl (ShapeError_div4 nb_hidden)
            else Inr ()))"

definition get_r :: "'a tensor \<Rightarrow> error + 'a tensor" where
  "get_r input =
     bnd (check_input input) (\<lambda>_.
       (let nb_hidden = last (shape input) in
        if dim input = 2 then narrow 1 0 (nb_hidden div 4) input
        else narrow 2 0 (nb_hidden div 4) input))"

definition get_i :: "'a tensor \<Rightarrow> error + 'a tensor" where
  "get_i input =
     bnd (check_input input) (\<lambda>_.
       (let nb_hidden = last (shape input) in
        if dim input = 2 then narrow 1 (nb_hidden div 4) (nb_hidden div 4) input
        else narrow 2 (nb_hidden div 4) (nb_hidden div 4) input))"

definition get_j :: "'a tensor \<Rightarrow> error + 'a tensor" where
  "get_j input =
     bnd (check_input input) (\<lambda>_.
       (let nb_hidden = last (shape input) in
        if dim input = 2 then narrow 1 (nb_hidden div 2) (nb_hidden div 4) input
        else narrow 2 (nb_hidden div 2) (nb_hidden div 4) input))"

definition get_k :: "'a tensor \<Rightarrow> error + 'a tensor" where
  "get_k input =
     bnd (check_input input) (\<lambda>_.
       (let nb_hidden = last (shape input) in
        if dim input = 2 then narrow 1 (nb_hidden - nb_hidden div 4) (nb_hidden div 4) input
        else narrow 2 (nb_hidden - nb_hidden div 4) (nb_hidden div 4) input))"

definition get_modulus :: "real tensor \<Rightarrow> bool \<Rightarrow> error + real tensor" where
  "get_modulus input vector_form =
     bnd (check_input input) (\<lambda>_.
     bnd (get_r input) (\<lambda>r.
     bnd (get_i input) (\<lambda>i.
     bnd (get_j input) (\<lambda>j.
     bnd (get_k input) (\<lambda>k.
     bnd (tmul r r) (\<lambda>rr.
     bnd (tmul i i) (\<lambda>ii.
     bnd (tadd rr ii) (\<lambda>s1.
     bnd (tmul j j) (\<lambda>jj.
     bnd (tadd s1 jj) (\<lambda>s2.
     bnd (tmul k k) (\<lambda>kk.
     bnd (tadd s2 kk) (\<lambda>s3.
       if vector_form then Inr (tsqrt s3)
       else Inr (tsqrt (sum_dim0 s3))))))))))))))"

definition get_normalized :: "real tensor \<Rightarrow> real \<Rightarrow> error + real tensor" where
  "get_normalized input eps =
     bnd (check_input input) (\<lambda>_.
     bnd (get_modulus input False) (\<lambda>data_modulus.
     bnd (if dim input = 2 then repeat data_modulus [1, 4]
          else repeat data_modulus [1, 1, 4]) (\<lambda>data_modulus_repeated.
     bnd (expand data_modulus_repeated (shape input)) (\<lambda>expanded.
     tdiv input (tadd_scalar expanded eps)))))"

section \<open>Quaternion linear operator\<close>

text \<open>
  The block matrix that \<open>quaternion_linear\<close>, \<open>forward\<close> and \<open>backward\<close> each build from
  the four weight blocks: four concatenations along axis 0, then one along axis 1.
\<close>

definition cat_kernels_4_quaternion ::
  "'a::uminus tensor \<Rightarrow> 'a tensor \<Rightarrow> 'a tensor \<Rightarrow> 'a tensor \<Rightarrow> error + 'a tensor" where
  "cat_kernels_4_quaternion r_weight i_weight j_weight k_weight =
     bnd (cat [r_weight, tneg i_weight, tneg j_weight, tneg k_weight] 0) (\<lambda>cat_kernels_4_r.
     bnd (cat [i_weight, r_weight, tneg k_weight, j_weight] 0) (\<lambda>cat_kernels_4_i.
     bnd (cat [j_weight, k_weight, r_weight, tneg i_weight] 0) (\<lambda>cat_kernels_4_j.
     bnd (cat [k_weight, tneg j_weight, i_weight, r_weight] 0) (\<lambda>cat_kernels_4_k.
     cat [cat_kernels_4_r, cat_kernels_4_i, cat_kernels_4_j, cat_kernels_4_k] 1))))"

definition quaternion_linear ::
  "'a::ring tensor \<Rightarrow> 'a tensor \<Rightarrow> 'a tensor \<Rightarrow> 'a tensor \<Rightarrow> 'a tensor \<Rightarrow> 'a tensor option
     \<Rightarrow> error + 'a tensor" where
  "quaternion_linear input r_weight i_weight j_weight k_weight bias =
     bnd (cat_kernels_4_quaternion r_weight i_weight j_weight k_weight) (\<lambda>kernel.
       if dim input = 2 then
         (case bias of
            Some b \<Rightarrow> addmm b input kernel
          | None \<Rightarrow> mm input kernel)
       else
         bnd (matmul input kernel) (\<lambda>output.
           (case bias of
              Some b \<Rightarrow> tadd output b
            | None \<Rightarrow> Inr output)))"

text \<open>
  \<open>QuaternionLinearFunction.forward\<close>. The context it saves is its six arguments; the
  function returns the output.
\<close>

definition forward ::
  "'a::ring tensor \<Rightarrow> 'a tensor \<Rightarrow> 'a tensor \<Rightarrow> 'a tensor \<Rightarrow> 'a tensor \<Rightarrow> 'a tensor option
     \<Rightarrow> error + 'a tensor" where
  "forward input r_weight i_weight j_weight k_weight bias =
     bnd (check_input input) (\<lambda>_.
     bnd (cat_kernels_4_quaternion r_weight i_weight j_weight k_weight) (\<lambda>kernel.
       if dim input = 2 then
         (case bias of
            Some b \<Rightarrow> addmm b input kernel
          | None \<Rightarrow> mm input kernel)
       else
         bnd (matmul input kernel) (\<lambda>output.
           (case bias of
              Some b \<Rightarrow> tadd output b
            | None \<Rightarrow> Inr output))))"

text \<open>
  The context of \<open>backward\<close>: the tensors saved by \<open>forward\<close> and the tuple
  \<open>needs_input_grad\<close>, which holds one requires-gradient flag for every argument the
  operator was applied to, in the order input, r, i, j, k, bias: six flags when the bias
  was passed, five when it was left out. \<open>flag_at flags n\<close> is \<open>ctx.needs_input_grad[n]\<close>.
\<close>

record 'a ctx =
  saved_input :: "'a tensor"
  saved_r_weight :: "'a tensor"
  saved_i_weight :: "'a tensor"
  saved_j_weight :: "'a tensor"
  saved_k_weight :: "'a tensor"
  saved_bias :: "'a tensor option"
  needs_input_grad :: "bool list"

definition flag_at :: "bool list \<Rightarrow> nat \<Rightarrow> error + bool" where
  "flag_at flags n = (if n < length flags then Inr (flags ! n) else Inl IndexError)"

text \<open>
  The three conditional blocks of \<open>backward\<close>. A gradient that is not computed stays
  \<open>None\<close>. In the second block \<open>r_weight.size(0)\<close> and \<open>r_weight.size(1)\<close> raise when
  \<open>r_weight\<close> has fewer than two axes, and the slice along axis 0, which the source
  writes four times, is computed once.
\<close>

definition grad_input_of ::
  "bool \<Rightarrow> 'a::ring tensor \<Rightarrow> 'a tensor \<Rightarrow> error + 'a tensor option" where
  "grad_input_of flag grad_output kernel_T =
     (if flag then bnd (mm grad_output kernel_T) (\<lambda>g. Inr (Some g)) else Inr None)"

definition grad_weights_of ::
  "bool \<Rightarrow> 'a::ring tensor \<Rightarrow> 'a tensor \<Rightarrow> 'a tensor
     \<Rightarrow> error + ('a tensor option \<times> 'a tensor option \<times> 'a tensor option \<times> 'a tensor option)" where
  "grad_weights_of flag grad_mat input_mat r_weight =
     (if flag then
        bnd (permute10 grad_mat) (\<lambda>grad_mat_T.
        bnd (mm grad_mat_T input_mat) (\<lambda>product.
        bnd (permute10 product) (\<lambda>grad_weight.
          if dim r_weight < 2 then Inl TorchError
          else
           (let unit_size_x = shape r_weight ! 0;
                unit_size_y = shape r_weight ! 1
            in
            bnd (narrow 0 0 unit_size_x grad_weight) (\<lambda>top.
            bnd (narrow 1 0 unit_size_y top) (\<lambda>grad_weight_r.
            bnd (narrow 1 unit_size_y unit_size_y top) (\<lambda>grad_weight_i.
            bnd (narrow 1 (unit_size_y * 2) unit_size_y top) (\<lambda>grad_weight_j.
            bnd (narrow 1 (unit_size_y * 3) unit_size_y top) (\<lambda>grad_weight_k.
              Inr (Some grad_weight_r, Some grad_weight_i,
                   Some grad_weight_j, Some grad_weight_k))))))))))
      else Inr (None, None, None, None))"

definition grad_bias_of :: "bool \<Rightarrow> 'a::ring tensor \<Rightarrow> 'a tensor option" where
  "grad_bias_of flag grad_output =
     (if flag then Some (squeeze0 (sum_dim0 grad_output)) else None)"

text \<open>\<open>QuaternionLinearFunction.backward\<close>.\<close>

definition backward ::
  "'a::ring ctx \<Rightarrow> 'a tensor
     \<Rightarrow> error + ('a tensor option \<times> 'a tensor option \<times> 'a tensor option \<times>
                 'a tensor option \<times> 'a tensor option \<times> 'a tensor option)" where
  "backward ctx grad_output =
     (let input = saved_input ctx;
          r_weight = saved_r_weight ctx; i_weight = saved_i_weight ctx;
          j_weight = saved_j_weight ctx; k_weight = saved_k_weight ctx
      in
      bnd (cat_kernels_4_quaternion r_weight i_weight j_weight k_weight) (\<lambda>kernel.
      bnd (permute10 kernel) (\<lambda>cat_kernels_4_quaternion_T.
      bnd (get_r input) (\<lambda>r.
      bnd (get_i input) (\<lambda>i.
      bnd (get_j input) (\<lambda>j.
      bnd (get_k input) (\<lambda>k.
      bnd (cat [r, tneg i, tneg j, tneg k] 0) (\<lambda>input_r.
      bnd (cat [i, r, tneg k, j] 0) (\<lambda>input_i.
      bnd (cat [j, k, r, tneg i] 0) (\<lambda>input_j.
      bnd (cat [k, tneg j, i, r] 0) (\<lambda>input_k.
      bnd (cat [input_r, input_i, input_j, input_k] 1) (\<lambda>input_mat.
      bnd (get_r grad_output) (\<lambda>gr.
      bnd (get_i grad_output) (\<lambda>gi.
      bnd (get_j grad_output) (\<lambda>gj.
      bnd (get_k grad_output) (\<lambda>gk.
      bnd (cat [gr, gi, gj, gk] 1) (\<lambda>grad_r.
      bnd (cat [tneg gi, gr, gk, tneg gj] 1) (\<lambda>grad_i.
      bnd (cat [tneg gj, tneg gk, gr, gi] 1) (\<lambda>grad_j.
      bnd (cat [tneg gk, gj, tneg gi, gr] 1) (\<lambda>grad_k.
      bnd (cat [grad_r, grad_i, grad_j, grad_k] 0) (\<lambda>grad_mat.
      bnd (flag_at (needs_input_grad ctx) 0) (\<lambda>needs_input.
      bnd (grad_input_of needs_input grad_output cat_kernels_4_quaternion_T) (\<lambda>grad_input.
      bnd (flag_at (needs_input_grad ctx) 1) (\<lambda>needs_r_weight.
      bnd (grad_weights_of needs_r_weight grad_mat input_mat r_weight)
          (\<lambda>(grad_weight_r, grad_weight_i, grad_weight_j, grad_weight_k).
      bnd (flag_at (needs_input_grad ctx) 5) (\<lambda>needs_bias.
        Inr (grad_input, grad_weight_r, grad_weight_i, grad_weight_j, grad_weight_k,
             grad_bias_of needs_bias grad_output)))))))))))))))))))))))))))"

section \<open>Hamilton product\<close>

definition hamilton_product ::
  "'a::{plus,minus,times} tensor \<Rightarrow> 'a tensor \<Rightarrow> error + 'a tensor" where
  "hamilton_product q0 q1 =
     bnd (get_r q1) (\<lambda>q1_r.
     bnd (get_i q1) (\<lambda>q1_i.
     bnd (get_j q1) (\<lambda>q1_j.
     bnd (get_k q1) (\<lambda>q1_k.
     bnd (tmul q0 q1) (\<lambda>r_base.
     bnd (get_r r_base) (\<lambda>a0. bnd (get_i r_base) (\<lambda>a1. bnd (tsub a0 a1) (\<lambda>a01.
     bnd (get_j r_base) (\<lambda>a2. bnd (tsub a01 a2) (\<lambda>a012.
     bnd (get_k r_base) (\<lambda>a3. bnd (tsub a012 a3) (\<lambda>r.
     bnd (cat [q1_i, q1_r, q1_k, q1_j] 1) (\<lambda>perm_i.
     bnd (tmul q0 perm_i) (\<lambda>i_base.
     bnd (get_r i_base) (\<lambda>b0. bnd (get_i i_base) (\<lambda>b1. bnd (tadd b0 b1) (\<lambda>b01.
     bnd (get_j i_base) (\<lambda>b2. bnd (tadd b01 b2) (\<lambda>b012.
     bnd (get_k i_base) (\<lambda>b3. bnd (tsub b012 b3) (\<lambda>i.
     bnd (cat [q1_j, q1_k, q1_r, q1_i] 1) (\<lambda>perm_j.
     bnd (tmul q0 perm_j) (\<lambda>j_base.
     bnd (get_r j_base) (\<lambda>c0. bnd (get_i j_base) (\<lambda>c1. bnd (tsub c0 c1) (\<lambda>c01.
     bnd (get_j j_base) (\<lambda>c2. bnd (tadd c01 c2) (\<lambda>c012.
     bnd (get_k j_base) (\<lambda>c3. bnd (tadd c012 c3) (\<lambda>j.
     bnd (cat [q1_k, q1_j, q1_i, q1_r] 1) (\<lambda>perm_k.
     bnd (tmul q0 perm_k) (\<lambda>k_base.
     bnd (get_r k_base) (\<lambda>d0. bnd (get_i k_base) (\<lambda>d1. bnd (tadd d0 d1) (\<lambda>d01.
     bnd (get_j k_base) (\<lambda>d2. bnd (tsub d01 d2) (\<lambda>d012.
     bnd (get_k k_base) (\<lambda>d3. bnd (tadd d012 d3) (\<lambda>k.
       cat [r, i, j, k] 1)))))))))))))))))))))))))))))))))))))))"

section \<open>Weight initialisers\<close>

text \<open>
  The random source is the numeric library's: it is not part of the repository, so it is
  a parameter. A generator state has type \<open>'g\<close>; \<open>uniform low high size g\<close> is the
  library's \<open>uniform(low, high, size)\<close> on a generator in state \<open>g\<close>: it returns \<open>size\<close>
  samples and the generator's next state. \<open>np.random.uniform\<close> is this function on the
  process-wide generator, whose state the initialisers below take and return;
  \<open>random_state seed\<close> is \<open>RandomState(seed)\<close>.
\<close>

type_synonym 'g uniform = "real \<Rightarrow> real \<Rightarrow> nat \<Rightarrow> 'g \<Rightarrow> real list \<times> 'g"

definition criterion_scale :: "nat \<Rightarrow> nat \<Rightarrow> string \<Rightarrow> error + real" where
  "criterion_scale in_features out_features criterion =
     (if criterion = ''glorot'' then Inr (1 / sqrt (2 * (real in_features + real out_features)))
      else if criterion = ''he'' then Inr (1 / sqrt (2 * real in_features))
      else Inl (ValueError (''Invalid criterion: '' @ criterion)))"

text \<open>One round of the loop that normalises the sampled quadruples in place.\<close>

definition unitary_step ::
  "nat \<Rightarrow> real list \<times> real list \<times> real list \<times> real list
       \<Rightarrow> real list \<times> real list \<times> real list \<times> real list" where
  "unitary_step i v =
     (case v of (v_r, v_i, v_j, v_k) \<Rightarrow>
        (let norm = sqrt ((v_r ! i) ^ 2 + (v_i ! i) ^ 2 + (v_j ! i) ^ 2 + (v_k ! i) ^ 2) + 0.0001
         in (v_r[i := v_r ! i / norm], v_i[i := v_i ! i / norm],
             v_j[i := v_j ! i / norm], v_k[i := v_k ! i / norm])))"

definition reshape :: "'a list \<Rightarrow> nat list \<Rightarrow> 'a tensor" where
  "reshape v kernel_shape = \<lparr>shape = kernel_shape, data = v\<rparr>"

definition unitary_init ::
  "'g uniform \<Rightarrow> nat \<Rightarrow> nat \<Rightarrow> 'g \<Rightarrow> string \<Rightarrow> 'g
     \<Rightarrow> error + ((real tensor \<times> real tensor \<times> real tensor \<times> real tensor) \<times> 'g)" where
  "unitary_init uniform in_features out_features rng criterion global =
     bnd (criterion_scale in_features out_features criterion) (\<lambda>s.
       (let kernel_shape = [in_features, out_features];
            number_of_weights = prod_list kernel_shape;
            (v_r, g1) = uniform 0 1 number_of_weights global;
            (v_i, g2) = uniform 0 1 number_of_weights g1;
            (v_j, g3) = uniform 0 1 number_of_weights g2;
            (v_k, g4) = uniform 0 1 number_of_weights g3;
            (v_r, v_i, v_j, v_k) = fold unitary_step [0..<number_of_weights] (v_r, v_i, v_j, v_k)
        in Inr ((tmul_scalar (reshape v_r kernel_shape) s,
                 tmul_scalar (reshape v_i kernel_shape) s,
                 tmul_scalar (reshape v_j kernel_shape) s,
                 tmul_scalar (reshape v_k kernel_shape) s), g4)))"

definition imaginary_step ::
  "nat \<Rightarrow> real list \<times> real list \<times> real list \<Rightarrow> real list \<times> real list \<times> real list" where
  "imaginary_step i v =
     (case v of (v_i, v_j, v_k) \<Rightarrow>
        (let norm = sqrt ((v_i ! i) ^ 2 + (v_j ! i) ^ 2 + (v_k ! i) ^ 2) + 0.0001
         in (v_i[i := v_i ! i / norm], v_j[i := v_j ! i / norm], v_k[i := v_k ! i / norm])))"

text \<open>The product of two arrays of the same shape, element by element.\<close>

definition amul :: "real tensor \<Rightarrow> real tensor \<Rightarrow> real tensor" where
  "amul a b = \<lparr>shape = shape a, data = map2 (*) (data a) (data b)\<rparr>"

definition amap :: "(real \<Rightarrow> real) \<Rightarrow> real tensor \<Rightarrow> real tensor" where
  "amap f a = \<lparr>shape = shape a, data = map f (data a)\<rparr>"

definition quaternion_init ::
  "'g uniform \<Rightarrow> (nat \<Rightarrow> 'g) \<Rightarrow> nat \<Rightarrow> nat \<Rightarrow> 'g \<Rightarrow> string \<Rightarrow> 'g
     \<Rightarrow> error + ((real tensor \<times> real tensor \<times> real tensor \<times> real tensor) \<times> 'g)" where
  "quaternion_init uniform random_state in_features out_features rng criterion global =
     bnd (criterion_scale in_features out_features criterion) (\<lambda>s.
       (let rng = random_state 123;
            kernel_shape = [in_features, out_features];
            number_of_weights = prod_list kernel_shape;
            (v_i, g1) = uniform 0 1 number_of_weights global;
            (v_j, g2) = uniform 0 1 number_of_weights g1;
            (v_k, g3) = uniform 0 1 number_of_weights g2;
            (v_i, v_j, v_k) = fold imaginary_step [0..<number_of_weights] (v_i, v_j, v_k);
            v_i = reshape v_i kernel_shape;
            v_j = reshape v_j kernel_shape;
            v_k = reshape v_k kernel_shape;
            (modulus, rng1) = uniform (- s) s (prod_list kernel_shape) rng;
            modulus = reshape modulus kernel_shape;
            (phase, rng2) = uniform (- pi) pi (prod_list kernel_shape) rng1;
            phase = reshape phase kernel_shape
        in Inr ((amul modulus (amap cos phase),
                 amul (amul modulus v_i) (amap sin phase),
                 amul (amul modulus v_j) (amap sin phase),
                 amul (amul modulus v_k) (amap sin phase)), g3)))"

text \<open>
  A generator given by the list of the variates in \<open>[0, 1)\<close> that it will produce, one after
  the other: an instance of the random source above, used to run the initialisers.
\<close>

definition tape_uniform :: "real list uniform" where
  "tape_uniform low high n g =
     (map (\<lambda>u. low + (high - low) * u) (take n g), drop n g)"

section \<open>Rows computed by the Hamilton product\<close>

text \<open>
  What \<open>hamilton_product\<close> computes on one pair of rows, in the order of its statements:
  \<open>combine4\<close> is one line such as \<open>get_r(base) - get_i(base) - get_j(base) - get_k(base)\<close>,
  and \<open>ham_row\<close> the four products with the permuted copies of the second row.
\<close>

definition combine4 ::
  "('a \<Rightarrow> 'a \<Rightarrow> 'a) \<Rightarrow> ('a \<Rightarrow> 'a \<Rightarrow> 'a) \<Rightarrow> ('a \<Rightarrow> 'a \<Rightarrow> 'a) \<Rightarrow> nat \<Rightarrow> 'a list \<Rightarrow> 'a list" where
  "combine4 f1 f2 f3 H v =
     map2 f3 (map2 f2 (map2 f1 (take H (drop 0 v)) (take H (drop H v)))
                      (take H (drop (2 * H) v)))
             (take H (drop (3 * H) v))"

definition ham_row :: "nat \<Rightarrow> 'a::{plus,minus,times} list \<Rightarrow> 'a list \<Rightarrow> 'a list" where
  "ham_row H a b =
     combine4 (-) (-) (-) H (map2 (*) a b) @
     combine4 (+) (+) (-) H
       (map2 (*) a (take H (drop H b) @ take H (drop 0 b) @
                    take H (drop (3 * H) b) @ take H (drop (2 * H) b))) @
     combine4 (-) (+) (+) H
       (map2 (*) a (take H (drop (2 * H) b) @ take H (drop (3 * H) b) @
                    take H (drop 0 b) @ take H (drop H b))) @
     combine4 (+) (-) (+) H
       (map2 (*) a (take H (drop (3 * H) b) @ take H (drop (2 * H) b) @
                    take H (drop H b) @ take H (drop 0 b)))"

text \<open>
  The identity quaternion tensor of shape \<open>[B, 4 * H]\<close>: ones in the r component, zeros in
  the other three.
\<close>

definition identity_row :: "nat \<Rightarrow> 'a::{zero,one} list" where
  "identity_row H = replicate H 1 @ replicate H 0 @ replicate H 0 @ replicate H 0"

definition identity_quaternion :: "nat \<Rightarrow> nat \<Rightarrow> 'a::{zero,one} tensor" where
  "identity_quaternion B H = \<lparr>shape = [B, 4 * H], data = concat (replicate B (identity_row H))\<rparr>"

text \<open>
  The divisor that the batch-aggregated normalisation uses at feature \<open>h\<close>: the square
  root of the sum, over all \<open>B\<close> rows, of the squared quaternion modulus at that feature.
\<close>

definition batch_modulus :: "nat \<Rightarrow> nat \<Rightarrow> real tensor \<Rightarrow> nat \<Rightarrow> real" where
  "batch_modulus B H t h =
     sqrt (sum_list (map (\<lambda>b. qr H t b h * qr H t b h + qi H t b h * qi H t b h
                                + qj H t b h * qj H t b h + qk H t b h * qk H t b h) [0..<B]))"

text \<open>The sum of squares that \<open>get_modulus\<close> forms on one row.\<close>

definition square_sum :: "nat \<Rightarrow> real list \<Rightarrow> real list" where
  "square_sum H v =
     map2 (+) (map2 (+) (map2 (+)
        (map2 (*) (take H (drop 0 v)) (take H (drop 0 v)))
        (map2 (*) (take H (drop H v)) (take H (drop H v))))
        (map2 (*) (take H (drop (2 * H) v)) (take H (drop (2 * H) v))))
        (map2 (*) (take H (drop (3 * H) v)) (take H (drop (3 * H) v)))"

section \<open>The block-encoding matrix, in words\<close>

text \<open>
  Matrices as lists of rows. \<open>vcat4\<close> stacks four blocks vertically (one on top of the
  other), \<open>hcat4\<close> puts four blocks of equal height side by side, \<open>neg_rows\<close> negates a
  block.
\<close>

definition neg_rows :: "'a::uminus list list \<Rightarrow> 'a list list" where
  "neg_rows A = map (map uminus) A"

definition vcat4 :: "'a list list \<Rightarrow> 'a list list \<Rightarrow> 'a list list \<Rightarrow> 'a list list \<Rightarrow> 'a list list" where
  "vcat4 A B C D = A @ B @ C @ D"

definition hcat4 :: "'a list list \<Rightarrow> 'a list list \<Rightarrow> 'a list list \<Rightarrow> 'a list list \<Rightarrow> 'a list list" where
  "hcat4 A B C D = map (\<lambda>x. A ! x @ B ! x @ C ! x @ D ! x) [0..<length A]"

text \<open>
  The encoding as the specification words it: each of the four lists of blocks
  concatenated horizontally, the four results stacked vertically.
\<close>

definition encoding_spec ::
  "'a::uminus list list \<Rightarrow> 'a list list \<Rightarrow> 'a list list \<Rightarrow> 'a list list \<Rightarrow> 'a list list" where
  "encoding_spec r i j k =
     vcat4 (hcat4 r (neg_rows i) (neg_rows j) (neg_rows k))
           (hcat4 i r (neg_rows k) j)
           (hcat4 j k r (neg_rows i))
           (hcat4 k (neg_rows j) i r)"

text \<open>
  The encoding with the two directions exchanged: each of the four lists of blocks
  stacked vertically, the four results concatenated horizontally.
\<close>

definition encoding ::
  "'a::uminus list list \<Rightarrow> 'a list list \<Rightarrow> 'a list list \<Rightarrow> 'a list list \<Rightarrow> 'a list list" where
  "encoding r i j k =
     hcat4 (vcat4 r (neg_rows i) (neg_rows j) (neg_rows k))
           (vcat4 i r (neg_rows k) j)
           (vcat4 j k r (neg_rows i))
           (vcat4 k (neg_rows j) i r)"

text \<open>
  A row times an \<open>m\<close> by \<open>p\<close> matrix \<open>E\<close>, plus the bias when there is one; and the tensor
  obtained by doing this to every row of the input.
\<close>

definition affine_row ::
  "nat \<Rightarrow> nat \<Rightarrow> 'a::semiring_0 list list \<Rightarrow> 'a list option \<Rightarrow> 'a list \<Rightarrow> 'a list" where
  "affine_row m p E bias row =
     map (\<lambda>c. case bias of
                 None \<Rightarrow> sum_list (map (\<lambda>k. row ! k * E ! k ! c) [0..<m])
               | Some b \<Rightarrow> sum_list (map (\<lambda>k. row ! k * E ! k ! c) [0..<m]) + b ! c) [0..<p]"

definition affine ::
  "'a::semiring_0 tensor \<Rightarrow> nat \<Rightarrow> nat \<Rightarrow> 'a list list \<Rightarrow> 'a list option \<Rightarrow> 'a tensor" where
  "affine input m p E bias =
     \<lparr>shape = butlast (shape input) @ [p],
      data = concat (map (affine_row m p E bias) (rows input))\<rparr>"

text \<open>The transpose of a matrix with \<open>p\<close> columns.\<close>

definition transpose_rows :: "nat \<Rightarrow> 'a list list \<Rightarrow> 'a list list" where
  "transpose_rows p E = map (\<lambda>c. map (\<lambda>k. E ! k ! c) [0..<length E]) [0..<p]"

section \<open>Scalars with infinities and NaN\<close>

text \<open>
  The tensors of the program hold floating-point numbers. \<open>fl\<close> keeps what the claims
  about special values need: a finite number, the two infinities and NaN, with the
  arithmetic of the floating-point standard on them (an infinity times zero and the
  difference of equal infinities are NaN, and NaN absorbs everything). Rounding and
  overflow of finite results and the sign of zero are not represented: a finite value is
  a real number.
\<close>

datatype fl = Finite real | PosInf | NegInf | NaN


instantiation fl :: "{zero, one, plus, minus, uminus, times}"
begin

definition zero_fl :: fl where
  "zero_fl = Finite 0"

definition one_fl :: fl where
  "one_fl = Finite 1"

fun uminus_fl :: "fl \<Rightarrow> fl" where
  "uminus_fl (Finite a) = Finite (- a)"
| "uminus_fl PosInf = NegInf"
| "uminus_fl NegInf = PosInf"
| "uminus_fl NaN = NaN"

fun plus_fl :: "fl \<Rightarrow> fl \<Rightarrow> fl" where
  "plus_fl (Finite a) (Finite b) = Finite (a + b)"
| "plus_fl (Finite a) PosInf = PosInf"
| "plus_fl (Finite a) NegInf = NegInf"
| "plus_fl PosInf (Finite b) = PosInf"
| "plus_fl PosInf PosInf = PosInf"
| "plus_fl PosInf NegInf = NaN"
| "plus_fl NegInf (Finite b) = NegInf"
| "plus_fl NegInf NegInf = NegInf"
| "plus_fl NegInf PosInf = NaN"
| "plus_fl NaN y = NaN"
| "plus_fl x NaN = NaN"

definition minus_fl :: "fl \<Rightarrow> fl \<Rightarrow> fl" where
  "minus_fl x y = x + (- y)"

fun times_fl :: "fl \<Rightarrow> fl \<Rightarrow> fl" where
  "times_fl (Finite a) (Finite b) = Finite (a * b)"
| "times_fl (Finite a) PosInf = (if a = 0 then NaN else if 0 < a then PosInf else NegInf)"
| "times_fl (Finite a) NegInf = (if a = 0 then NaN else if 0 < a then NegInf else PosInf)"
| "times_fl PosInf (Finite b) = (if b = 0 then NaN else if 0 < b then PosInf else NegInf)"
| "times_fl NegInf (Finite b) = (if b = 0 then NaN else if 0 < b then NegInf else PosInf)"
| "times_fl PosInf PosInf = PosInf"
| "times_fl PosInf NegInf = NegInf"
| "times_fl NegInf PosInf = NegInf"
| "times_fl NegInf NegInf = PosInf"
| "times_fl NaN y = NaN"
| "times_fl x NaN = NaN"

instance ..

end

section \<open>Predicates used in the statements\<close>

text \<open>The tensors that \<open>check_input\<close> accepts.\<close>

definition valid_quaternion :: "'a tensor \<Rightarrow> bool" where
  "valid_quaternion t = ((dim t = 2 \<or> dim t = 3) \<and> last (shape t) mod 4 = 0)"

text \<open>The two errors that \<open>check_input\<close> raises.\<close>

definition is_shape_error :: "error \<Rightarrow> bool" where
  "is_shape_error e =
     (case e of ShapeError_rank _ \<Rightarrow> True | ShapeError_div4 _ \<Rightarrow> True | _ \<Rightarrow> False)"

definition raises_shape_error :: "error + 'a \<Rightarrow> bool" where
  "raises_shape_error m = (case m of Inl e \<Rightarrow> is_shape_error e | Inr _ \<Rightarrow> False)"

section \<open>Lists of blocks\<close>

lemma bnd_Inr [simp]: "bnd (Inr v) f = f v"
  by (simp add: bnd_def)

lemma bnd_Inl [simp]: "bnd (Inl e) f = Inl e"
  by (simp add: bnd_def)

lemma chunks_length [simp]: "length (chunks k n xs) = k"
  by (simp add: chunks_def)

lemma chunks_nth: "b < k \<Longrightarrow> chunks k n xs ! b = take n (drop (b * n) xs)"
  by (simp add: chunks_def)

lemma chunks_Suc:
  "chunks (Suc k) n xs = take n xs # chunks k n (drop n xs)"
proof -
  have "[0..<Suc k] = 0 # map Suc [0..<k]"
    by (simp add: upt_conv_Cons map_Suc_upt del: upt_Suc)
  then show ?thesis
    by (simp add: chunks_def comp_def add.commute del: upt_Suc)
qed

lemma chunks_concat:
  "length rs = k \<Longrightarrow> list_all (\<lambda>r. length r = n) rs \<Longrightarrow> chunks k n (concat rs) = rs"
proof (induction rs arbitrary: k)
  case Nil
  then show ?case by (simp add: chunks_def)
next
  case (Cons r rs)
  then obtain k' where k: "k = Suc k'" by (cases k) auto
  with Cons show ?case by (simp add: chunks_Suc)
qed

lemma concat_chunks:
  "length xs = k * n \<Longrightarrow> concat (chunks k n xs) = xs"
proof (induction k arbitrary: xs)
  case 0
  then show ?case by (simp add: chunks_def)
next
  case (Suc k)
  then have "length (drop n xs) = k * n" by simp
  with Suc.IH have "concat (chunks k n (drop n xs)) = drop n xs" by blast
  then show ?case by (simp add: chunks_Suc)
qed

lemma chunks_all_length:
  "length xs = k * n \<Longrightarrow> list_all (\<lambda>r. length r = n) (chunks k n xs)"
proof (induction k arbitrary: xs)
  case 0
  then show ?case by (simp add: chunks_def)
next
  case (Suc k)
  then have "length (drop n xs) = k * n" by simp
  with Suc.IH have "list_all (\<lambda>r. length r = n) (chunks k n (drop n xs))" by blast
  with Suc.prems show ?case by (simp add: chunks_Suc)
qed


lemma rows_last:
  "shape t = pre @ [n] \<Longrightarrow> rows t = chunks (prod_list pre) n (data t)"
  by (simp add: rows_def)

lemma wf_last:
  "well_formed t \<Longrightarrow> shape t = pre @ [n] \<Longrightarrow> length (data t) = prod_list pre * n"
  by (simp add: well_formed_def)

lemma data_rows:
  "well_formed t \<Longrightarrow> shape t = pre @ [n] \<Longrightarrow> concat (rows t) = data t"
  by (simp add: rows_last concat_chunks wf_last)

lemma rows_all_length:
  "well_formed t \<Longrightarrow> shape t = pre @ [n] \<Longrightarrow> list_all (\<lambda>r. length r = n) (rows t)"
  by (simp add: rows_last chunks_all_length wf_last)

lemma rows_length: "shape t = pre @ [n] \<Longrightarrow> length (rows t) = prod_list pre"
  by (simp add: rows_last)

lemma take_drop_slice:
  "start + len \<le> n \<Longrightarrow> take len (drop start (take n xs)) = take len (drop start xs)"
  by (simp add: drop_take min_def)

lemma narrow_last:
  assumes "shape t = pre @ [n]" and "start + len \<le> n"
  shows "narrow (length pre) start len t =
           Inr \<lparr>shape = pre @ [len],
                data = concat (map (\<lambda>r. take len (drop start r)) (rows t))\<rparr>"
proof -
  have "map (\<lambda>r. take len (drop start r)) (rows t) =
        map (\<lambda>b. take len (drop (b * n + start) (data t))) [0..<prod_list pre]"
    using assms by (simp add: rows_last chunks_def comp_def take_drop_slice add.commute)
  then show ?thesis
    using assms by (simp add: narrow_def Let_def)
qed

lemma cat_last4:
  assumes "shape a = pre @ [na]" "shape b = pre @ [nb]" "shape c = pre @ [nc]" "shape d = pre @ [nd]"
  shows "cat [a, b, c, d] (length pre) =
           Inr \<lparr>shape = pre @ [na + nb + nc + nd],
                data = concat (map (\<lambda>x. rows a ! x @ rows b ! x @ rows c ! x @ rows d ! x)
                                [0..<prod_list pre])\<rparr>"
  using assms
  apply (simp add: cat_def Let_def rows_last)
  apply (intro arg_cong[where f=concat] map_cong)
   apply (simp_all add: chunks_nth)
  done

lemma shape_split:
  "dim t = 2 \<or> dim t = 3 \<Longrightarrow> shape t = butlast (shape t) @ [last (shape t)]"
  by (cases "shape t" rule: rev_cases) (auto simp: dim_def)

lemma check_input_ok:
  "dim t = 2 \<or> dim t = 3 \<Longrightarrow> last (shape t) = 4 * H \<Longrightarrow> check_input t = Inr ()"
  by (auto simp: check_input_def)

lemma length_butlast_shape: "length (butlast (shape t)) = dim t - 1"
  by (simp add: dim_def)

lemma getter_slice:
  assumes "dim t = 2 \<or> dim t = 3" and "last (shape t) = n" and "start + len \<le> n"
  shows "(if dim t = 2 then narrow 1 start len t else narrow 2 start len t) =
           Inr \<lparr>shape = butlast (shape t) @ [len],
                data = concat (map (\<lambda>r. take len (drop start r)) (rows t))\<rparr>"
proof -
  have sh: "shape t = butlast (shape t) @ [n]"
    using assms shape_split by metis
  have "narrow (length (butlast (shape t))) start len t =
           Inr \<lparr>shape = butlast (shape t) @ [len],
                data = concat (map (\<lambda>r. take len (drop start r)) (rows t))\<rparr>"
    using sh assms(3) by (rule narrow_last)
  moreover have "length (butlast (shape t)) = (if dim t = 2 then 1 else 2)"
    using assms(1) by (auto simp: dim_def)
  ultimately show ?thesis by (simp split: if_splits)
qed

lemma get_r_eq:
  assumes "dim t = 2 \<or> dim t = 3" and "last (shape t) = 4 * H"
  shows "get_r t = Inr \<lparr>shape = butlast (shape t) @ [H],
                          data = concat (map (\<lambda>r. take H (drop 0 r)) (rows t))\<rparr>"
  using getter_slice [OF assms(1) assms(2), of 0 H] check_input_ok [OF assms] assms(2)
  by (auto simp add: get_r_def Let_def split: if_splits)

lemma get_i_eq:
  assumes "dim t = 2 \<or> dim t = 3" and "last (shape t) = 4 * H"
  shows "get_i t = Inr \<lparr>shape = butlast (shape t) @ [H],
                          data = concat (map (\<lambda>r. take H (drop H r)) (rows t))\<rparr>"
  using getter_slice [OF assms(1) assms(2), of H H] check_input_ok [OF assms] assms(2)
  by (auto simp add: get_i_def Let_def split: if_splits)

lemma get_j_eq:
  assumes "dim t = 2 \<or> dim t = 3" and "last (shape t) = 4 * H"
  shows "get_j t = Inr \<lparr>shape = butlast (shape t) @ [H],
                          data = concat (map (\<lambda>r. take H (drop (2 * H) r)) (rows t))\<rparr>"
proof -
  have "4 * H div 2 = 2 * H" by simp
  then show ?thesis
    using getter_slice [OF assms(1) assms(2), of "2 * H" H] check_input_ok [OF assms] assms(2)
    by (auto simp add: get_j_def Let_def split: if_splits)
qed

lemma get_k_eq:
  assumes "dim t = 2 \<or> dim t = 3" and "last (shape t) = 4 * H"
  shows "get_k t = Inr \<lparr>shape = butlast (shape t) @ [H],
                          data = concat (map (\<lambda>r. take H (drop (3 * H) r)) (rows t))\<rparr>"
proof -
  have "4 * H - H = 3 * H" by simp
  then show ?thesis
    using getter_slice [OF assms(1) assms(2), of "3 * H" H] check_input_ok [OF assms] assms(2)
    by (auto simp add: get_k_def Let_def split: if_splits)
qed

text \<open>The rows of a slice are the slices of the rows.\<close>

lemma rows_slice:
  assumes "well_formed t" and "shape t = pre @ [n]" and "start + len \<le> n"
  shows "rows \<lparr>shape = pre @ [len],
               data = concat (map (\<lambda>r. take len (drop start r)) (rows t))\<rparr>
         = map (\<lambda>r. take len (drop start r)) (rows t)"
proof -
  have "list_all (\<lambda>r. length r = n) (rows t)"
    using assms(1,2) by (rule rows_all_length)
  then have "list_all (\<lambda>r. length r = len) (map (\<lambda>r. take len (drop start r)) (rows t))"
    using assms(3) by (induction "rows t") (auto simp: list_all_iff)
  then show ?thesis
    using assms(2) by (simp add: rows_def chunks_concat)
qed

lemma tensor_eq: "\<lparr>shape = shape t, data = data t\<rparr> = (t :: 'a tensor)"
  by simp

lemma map_nth_upt: "length rs = k \<Longrightarrow> map (\<lambda>x. rs ! x) [0..<k] = rs"
  using map_nth [of rs] by simp

lemma four_slices:
  "length r = 4 * H \<Longrightarrow>
   take H (drop 0 r) @ take H (drop H r) @ take H (drop (2 * H) r) @ take H (drop (3 * H) r) = r"
proof -
  assume len: "length r = 4 * H"
  have a: "take H r @ take H (drop H r) = take (2 * H) r"
    by (simp add: take_add mult_2)
  have b: "take (2 * H) r @ take H (drop (2 * H) r) = take (3 * H) r"
    using take_add [of "2 * H" H r] by (simp add: add.commute)
  have c: "take (3 * H) r @ take H (drop (3 * H) r) = take (4 * H) r"
    using take_add [of "3 * H" H r] by (simp add: add.commute)
  have "take H (drop 0 r) @ take H (drop H r) @ take H (drop (2 * H) r) @ take H (drop (3 * H) r)
        = ((take H r @ take H (drop H r)) @ take H (drop (2 * H) r)) @ take H (drop (3 * H) r)"
    by simp
  also have "\<dots> = take (4 * H) r"
    by (simp only: a b c)
  finally show ?thesis using len by simp
qed

section \<open>Claims about the quaternion view\<close>

text \<open>
  C6. For a well-formed tensor \<open>t\<close> of rank 2 or 3 whose last axis has length \<open>4 * H\<close>,
  the four getters succeed, their results are the slices of width \<open>H\<close> at offsets
  \<open>0\<close>, \<open>H\<close>, \<open>2 * H\<close> and \<open>3 * H\<close> of every row of \<open>t\<close>, and concatenating them along
  the last axis gives back \<open>t\<close>.
\<close>

theorem getters_reconstruct:
  assumes wf: "well_formed t"
    and rank: "dim t = 2 \<or> dim t = 3"
    and last: "last (shape t) = 4 * H"
  shows "\<exists>r i j k.
           get_r t = Inr r \<and> get_i t = Inr i \<and> get_j t = Inr j \<and> get_k t = Inr k \<and>
           cat [r, i, j, k] (dim t - 1) = Inr t \<and>
           shape r = butlast (shape t) @ [H] \<and> shape i = butlast (shape t) @ [H] \<and>
           shape j = butlast (shape t) @ [H] \<and> shape k = butlast (shape t) @ [H] \<and>
           rows r = map (\<lambda>row. take H (drop 0 row)) (rows t) \<and>
           rows i = map (\<lambda>row. take H (drop H row)) (rows t) \<and>
           rows j = map (\<lambda>row. take H (drop (2 * H) row)) (rows t) \<and>
           rows k = map (\<lambda>row. take H (drop (3 * H) row)) (rows t)"
proof -
  define pre where "pre = butlast (shape t)"
  define r where "r = \<lparr>shape = pre @ [H], data = concat (map (\<lambda>r. take H (drop 0 r)) (rows t))\<rparr>"
  define i where "i = \<lparr>shape = pre @ [H], data = concat (map (\<lambda>r. take H (drop H r)) (rows t))\<rparr>"
  define j where "j = \<lparr>shape = pre @ [H], data = concat (map (\<lambda>r. take H (drop (2 * H) r)) (rows t))\<rparr>"
  define k where "k = \<lparr>shape = pre @ [H], data = concat (map (\<lambda>r. take H (drop (3 * H) r)) (rows t))\<rparr>"
  have sh: "shape t = pre @ [4 * H]"
    using shape_split [OF rank] last by (simp add: pre_def)
  have lpre: "length pre = dim t - 1"
    by (simp add: pre_def dim_def)
  have rr: "rows r = map (\<lambda>row. take H (drop 0 row)) (rows t)"
    unfolding r_def using wf sh by (rule rows_slice) simp
  have ri: "rows i = map (\<lambda>row. take H (drop H row)) (rows t)"
    unfolding i_def using wf sh by (rule rows_slice) simp
  have rj: "rows j = map (\<lambda>row. take H (drop (2 * H) row)) (rows t)"
    unfolding j_def using wf sh by (rule rows_slice) simp
  have rk: "rows k = map (\<lambda>row. take H (drop (3 * H) row)) (rows t)"
    unfolding k_def using wf sh by (rule rows_slice) simp
  have len: "length (rows t) = prod_list pre"
    using sh by (rule rows_length)
  have all: "list_all (\<lambda>r. length r = 4 * H) (rows t)"
    using wf sh by (rule rows_all_length)
  have "map (\<lambda>x. rows r ! x @ rows i ! x @ rows j ! x @ rows k ! x) [0..<prod_list pre]
        = map (\<lambda>x. rows t ! x) [0..<prod_list pre]"
  proof (rule map_cong [OF refl])
    fix x assume "x \<in> set [0..<prod_list pre]"
    then have x: "x < length (rows t)" using len by simp
    then have "length (rows t ! x) = 4 * H"
      using all by (simp add: list_all_length)
    then show "rows r ! x @ rows i ! x @ rows j ! x @ rows k ! x = rows t ! x"
      using x by (simp only: rr ri rj rk nth_map four_slices)
  qed
  then have "map (\<lambda>x. rows r ! x @ rows i ! x @ rows j ! x @ rows k ! x) [0..<prod_list pre]
        = rows t"
    using map_nth_upt [OF len] by simp
  then have "concat (map (\<lambda>x. rows r ! x @ rows i ! x @ rows j ! x @ rows k ! x)
                      [0..<prod_list pre]) = data t"
    using data_rows [OF wf sh] by simp
  moreover have "cat [r, i, j, k] (length pre) =
           Inr \<lparr>shape = pre @ [H + H + H + H],
                data = concat (map (\<lambda>x. rows r ! x @ rows i ! x @ rows j ! x @ rows k ! x)
                                [0..<prod_list pre])\<rparr>"
    by (rule cat_last4) (simp_all add: r_def i_def j_def k_def)
  ultimately have "cat [r, i, j, k] (dim t - 1) = Inr t"
    using sh lpre by simp
  moreover have "get_r t = Inr r" "get_i t = Inr i" "get_j t = Inr j" "get_k t = Inr k"
    unfolding r_def i_def j_def k_def pre_def
    by (rule get_r_eq get_i_eq get_j_eq get_k_eq; rule rank last)+
  moreover have "shape r = butlast (shape t) @ [H]" "shape i = butlast (shape t) @ [H]"
    "shape j = butlast (shape t) @ [H]" "shape k = butlast (shape t) @ [H]"
    by (simp_all add: r_def i_def j_def k_def pre_def)
  ultimately show ?thesis
    using rr ri rj rk by blast
qed

theorem getters_reconstruct_witness:
  "well_formed \<lparr>shape = [2, 4], data = [1, 2, 3, 4, 5, 6, 7, 8 :: int]\<rparr> \<and>
   (\<exists>r i j k.
      get_r \<lparr>shape = [2, 4], data = [1, 2, 3, 4, 5, 6, 7, 8 :: int]\<rparr> = Inr r \<and>
      get_i \<lparr>shape = [2, 4], data = [1, 2, 3, 4, 5, 6, 7, 8]\<rparr> = Inr i \<and>
      get_j \<lparr>shape = [2, 4], data = [1, 2, 3, 4, 5, 6, 7, 8]\<rparr> = Inr j \<and>
      get_k \<lparr>shape = [2, 4], data = [1, 2, 3, 4, 5, 6, 7, 8]\<rparr> = Inr k \<and>
      cat [r, i, j, k] 1 = Inr \<lparr>shape = [2, 4], data = [1, 2, 3, 4, 5, 6, 7, 8]\<rparr>)"
proof -
  let ?t = "\<lparr>shape = [2, 4], data = [1, 2, 3, 4, 5, 6, 7, 8 :: int]\<rparr>"
  have wf: "well_formed ?t" by (simp add: well_formed_def)
  have rank: "dim ?t = 2 \<or> dim ?t = 3" by (simp add: dim_def)
  have last: "last (shape ?t) = 4 * 1" by simp
  from getters_reconstruct [OF wf rank last] wf show ?thesis
    by (simp add: dim_def) blast
qed

section \<open>Shape errors\<close>

lemma rse_Inr [simp]: "\<not> raises_shape_error (Inr v)"
  by (simp add: raises_shape_error_def)

lemma rse_Torch [simp]: "\<not> raises_shape_error (Inl TorchError)" "\<not> raises_shape_error (Inl NotModelled)"
  by (simp_all add: raises_shape_error_def is_shape_error_def)

lemma rse_bnd:
  "\<not> raises_shape_error m \<Longrightarrow> (\<And>v. \<not> raises_shape_error (f v)) \<Longrightarrow> \<not> raises_shape_error (bnd m f)"
  by (cases m) (simp_all add: raises_shape_error_def)

lemma rse_narrow: "\<not> raises_shape_error (narrow d s l t)"
  by (simp add: narrow_def Let_def)

lemma rse_cat: "\<not> raises_shape_error (cat ts d)"
  by (simp add: cat_def Let_def split: list.splits)

lemma rse_tbin: "\<not> raises_shape_error (tbin f a b)"
  by (simp add: tbin_def split: option.splits)

lemma rse_expand: "\<not> raises_shape_error (expand t sh)"
  by (simp add: expand_def Let_def)

lemma rse_repeat: "\<not> raises_shape_error (repeat t reps)"
  by (simp add: repeat_def Let_def)

lemma rse_permute10: "\<not> raises_shape_error (permute10 t)"
  by (simp add: permute10_def split: list.splits)

lemma rse_mm: "\<not> raises_shape_error (mm a b)"
  by (simp add: mm_def)

lemma rse_matmul: "\<not> raises_shape_error (matmul a b)"
  by (simp add: matmul_def)

lemma rse_addmm: "\<not> raises_shape_error (addmm c a b)"
  unfolding addmm_def tadd_def by (intro rse_bnd rse_mm rse_expand rse_tbin)

lemma rse_kernels: "\<not> raises_shape_error (cat_kernels_4_quaternion r i j k)"
  unfolding cat_kernels_4_quaternion_def by (intro rse_bnd rse_cat)

lemma check_input_valid: "valid_quaternion t \<Longrightarrow> check_input t = Inr ()"
  by (auto simp: valid_quaternion_def check_input_def)

lemma check_input_invalid:
  "\<not> valid_quaternion t \<Longrightarrow>
     check_input t = Inl (if dim t \<notin> {2, 3} then ShapeError_rank (dim t)
                          else ShapeError_div4 (last (shape t)))"
  by (auto simp: valid_quaternion_def check_input_def)

lemma forward_valid_no_shape_error:
  "valid_quaternion t \<Longrightarrow> \<not> raises_shape_error (forward t r i j k bias)"
proof -
  assume v: "valid_quaternion t"
  have body: "\<not> raises_shape_error
     (if dim t = 2 then (case bias of Some b \<Rightarrow> addmm b t K | None \<Rightarrow> mm t K)
      else bnd (matmul t K) (\<lambda>output. case bias of Some b \<Rightarrow> tadd output b | None \<Rightarrow> Inr output))"
    for K
    by (cases bias) (simp_all add: tadd_def rse_addmm rse_mm rse_tbin rse_bnd rse_matmul)
  have "\<not> raises_shape_error (bnd (cat_kernels_4_quaternion r i j k) (\<lambda>K.
     if dim t = 2 then (case bias of Some b \<Rightarrow> addmm b t K | None \<Rightarrow> mm t K)
      else bnd (matmul t K) (\<lambda>output. case bias of Some b \<Rightarrow> tadd output b | None \<Rightarrow> Inr output)))"
    by (rule rse_bnd [OF rse_kernels body])
  then show ?thesis
    using v by (simp add: forward_def check_input_valid)
qed

lemma valid_last: "valid_quaternion t \<Longrightarrow> last (shape t) = 4 * (last (shape t) div 4)"
  by (auto simp: valid_quaternion_def)

lemma valid_rank: "valid_quaternion t \<Longrightarrow> dim t = 2 \<or> dim t = 3"
  by (simp add: valid_quaternion_def)

lemma getters_valid:
  assumes "valid_quaternion t"
  shows "\<not> raises_shape_error (get_r t)" "\<not> raises_shape_error (get_i t)"
    "\<not> raises_shape_error (get_j t)" "\<not> raises_shape_error (get_k t)"
  using get_r_eq [OF valid_rank [OF assms] valid_last [OF assms]]
    get_i_eq [OF valid_rank [OF assms] valid_last [OF assms]]
    get_j_eq [OF valid_rank [OF assms] valid_last [OF assms]]
    get_k_eq [OF valid_rank [OF assms] valid_last [OF assms]]
  by simp_all

lemma get_modulus_valid:
  assumes "valid_quaternion t"
  shows "\<not> raises_shape_error (get_modulus t vf)"
  unfolding get_modulus_def tmul_def tadd_def
  using getters_valid [OF assms]
  by (simp add: check_input_valid [OF assms] rse_bnd rse_tbin)

lemma get_normalized_valid:
  assumes "valid_quaternion t"
  shows "\<not> raises_shape_error (get_normalized t eps)"
  unfolding get_normalized_def tdiv_def
  using get_modulus_valid [OF assms]
  by (simp add: check_input_valid [OF assms] rse_bnd rse_tbin rse_repeat rse_expand)

text \<open>
  C7. \<open>check_input\<close> accepts a tensor exactly when its rank is 2 or 3 and the length of
  its last axis is divisible by 4. On an accepted tensor it returns with no effect and
  none of the operations that call it raises a shape error; on any other tensor it
  raises a shape error, and the getters, \<open>get_modulus\<close>, \<open>get_normalized\<close> and \<open>forward\<close>
  raise that same error, from their first statement.
\<close>

theorem check_input_shape_error:
  fixes t :: "real tensor"
  shows "(valid_quaternion t \<longrightarrow>
            check_input t = Inr () \<and>
            \<not> raises_shape_error (get_r t) \<and> \<not> raises_shape_error (get_i t) \<and>
            \<not> raises_shape_error (get_j t) \<and> \<not> raises_shape_error (get_k t) \<and>
            \<not> raises_shape_error (get_modulus t vector_form) \<and>
            \<not> raises_shape_error (get_normalized t eps) \<and>
            \<not> raises_shape_error (forward t r_weight i_weight j_weight k_weight bias)) \<and>
         (\<not> valid_quaternion t \<longrightarrow>
            (\<exists>e. is_shape_error e \<and> check_input t = Inl e \<and>
                 get_r t = Inl e \<and> get_i t = Inl e \<and> get_j t = Inl e \<and> get_k t = Inl e \<and>
                 get_modulus t vector_form = Inl e \<and> get_normalized t eps = Inl e \<and>
                 forward t r_weight i_weight j_weight k_weight bias = Inl e))"
proof (intro conjI impI)
  assume v: "valid_quaternion t"
  show "check_input t = Inr ()" using v by (rule check_input_valid)
  show "\<not> raises_shape_error (get_r t)" "\<not> raises_shape_error (get_i t)"
    "\<not> raises_shape_error (get_j t)" "\<not> raises_shape_error (get_k t)"
    using v by (rule getters_valid)+
  show "\<not> raises_shape_error (get_modulus t vector_form)"
    using v by (rule get_modulus_valid)
  show "\<not> raises_shape_error (get_normalized t eps)"
    using v by (rule get_normalized_valid)
  show "\<not> raises_shape_error (forward t r_weight i_weight j_weight k_weight bias)"
    using v by (rule forward_valid_no_shape_error)
next
  assume n: "\<not> valid_quaternion t"
  define e where "e = (if dim t \<notin> {2, 3} then ShapeError_rank (dim t)
                       else ShapeError_div4 (last (shape t)))"
  have c: "check_input t = Inl e"
    unfolding e_def using n by (rule check_input_invalid)
  have "is_shape_error e"
    by (simp add: e_def is_shape_error_def)
  moreover have "get_r t = Inl e" "get_i t = Inl e" "get_j t = Inl e" "get_k t = Inl e"
    "get_modulus t vector_form = Inl e" "get_normalized t eps = Inl e"
    "forward t r_weight i_weight j_weight k_weight bias = Inl e"
    by (simp_all add: get_r_def get_i_def get_j_def get_k_def get_modulus_def
        get_normalized_def forward_def c)
  ultimately show "\<exists>e. is_shape_error e \<and> check_input t = Inl e \<and>
                 get_r t = Inl e \<and> get_i t = Inl e \<and> get_j t = Inl e \<and> get_k t = Inl e \<and>
                 get_modulus t vector_form = Inl e \<and> get_normalized t eps = Inl e \<and>
                 forward t r_weight i_weight j_weight k_weight bias = Inl e"
    using c by blast
qed

theorem check_input_shape_error_witness:
  "valid_quaternion \<lparr>shape = [2, 8], data = replicate 16 (1 :: real)\<rparr> \<and>
   check_input \<lparr>shape = [2, 8], data = replicate 16 (1 :: real)\<rparr> = Inr () \<and>
   \<not> valid_quaternion \<lparr>shape = [2, 6], data = replicate 12 (1 :: real)\<rparr> \<and>
   check_input \<lparr>shape = [2, 6], data = replicate 12 (1 :: real)\<rparr> = Inl (ShapeError_div4 6) \<and>
   get_normalized \<lparr>shape = [2, 6], data = replicate 12 (1 :: real)\<rparr> (1 / 10000)
     = Inl (ShapeError_div4 6) \<and>
   forward \<lparr>shape = [2, 6], data = replicate 12 (1 :: real)\<rparr>
     \<lparr>shape = [1, 1], data = [1 :: real]\<rparr> \<lparr>shape = [1, 1], data = [0 :: real]\<rparr>
     \<lparr>shape = [1, 1], data = [0 :: real]\<rparr> \<lparr>shape = [1, 1], data = [0 :: real]\<rparr> None
     = Inl (ShapeError_div4 6) \<and>
   \<not> valid_quaternion \<lparr>shape = [8], data = replicate 8 (1 :: real)\<rparr> \<and>
   check_input \<lparr>shape = [8], data = replicate 8 (1 :: real)\<rparr> = Inl (ShapeError_rank 1)"
proof -
  let ?ok = "\<lparr>shape = [2, 8], data = replicate 16 (1 :: real)\<rparr>"
  let ?six = "\<lparr>shape = [2, 6], data = replicate 12 (1 :: real)\<rparr>"
  let ?one = "\<lparr>shape = [8], data = replicate 8 (1 :: real)\<rparr>"
  let ?w = "\<lparr>shape = [1, 1], data = [1 :: real]\<rparr>"
  let ?z = "\<lparr>shape = [1, 1], data = [0 :: real]\<rparr>"
  have v: "valid_quaternion ?ok" by (simp add: valid_quaternion_def dim_def)
  have n6: "\<not> valid_quaternion ?six" by (simp add: valid_quaternion_def dim_def)
  have n1: "\<not> valid_quaternion ?one" by (simp add: valid_quaternion_def dim_def)
  have c6: "check_input ?six = Inl (ShapeError_div4 6)" by (simp add: check_input_def dim_def)
  have c1: "check_input ?one = Inl (ShapeError_rank 1)" by (simp add: check_input_def dim_def)
  from check_input_shape_error [of ?ok False "1 / 10000" ?w ?z ?z ?z None] v
  have a: "check_input ?ok = Inr ()" by blast
  from check_input_shape_error [of ?six False "1 / 10000" ?w ?z ?z ?z None] n6 c6
  have b: "get_normalized ?six (1 / 10000) = Inl (ShapeError_div4 6)"
    "forward ?six ?w ?z ?z ?z None = Inl (ShapeError_div4 6)"
    by auto
  show ?thesis by (intro conjI) (rule v a n6 c6 b n1 c1)+
qed

section \<open>Tensors as tables of rows\<close>

lemma rows_okD:
  "rows_ok pre n rs \<Longrightarrow> length rs = prod_list pre"
  "rows_ok pre n rs \<Longrightarrow> x < prod_list pre \<Longrightarrow> length (rs ! x) = n"
  by (simp_all add: rows_ok_def list_all_length)

lemma rows_okI:
  "length rs = prod_list pre \<Longrightarrow> (\<And>x. x < prod_list pre \<Longrightarrow> length (rs ! x) = n)
     \<Longrightarrow> rows_ok pre n rs"
  by (simp add: rows_ok_def list_all_length)

lemma rows_ok_map_upt:
  "(\<And>x. x < prod_list pre \<Longrightarrow> length (f x) = n) \<Longrightarrow> rows_ok pre n (map f [0..<prod_list pre])"
  by (rule rows_okI) simp_all

lemma shape_of_rows [simp]: "shape (of_rows pre n rs) = pre @ [n]"
  by (simp add: of_rows_def)

lemma data_of_rows [simp]: "data (of_rows pre n rs) = concat rs"
  by (simp add: of_rows_def)

lemma dim_of_rows [simp]: "dim (of_rows pre n rs) = Suc (length pre)"
  by (simp add: dim_def)

lemma rows_of_rows: "rows_ok pre n rs \<Longrightarrow> rows (of_rows pre n rs) = rs"
  by (simp add: rows_def rows_ok_def chunks_concat)

lemma length_concat_uniform:
  "list_all (\<lambda>r. length r = n) rs \<Longrightarrow> length (concat rs) = length rs * n"
  by (induction rs) simp_all

lemma wf_of_rows: "rows_ok pre n rs \<Longrightarrow> well_formed (of_rows pre n rs)"
  using length_concat_uniform [of n rs]
  by (simp add: well_formed_def rows_ok_def)

lemma of_rows_rows:
  "well_formed t \<Longrightarrow> shape t = pre @ [n] \<Longrightarrow> (t :: 'a tensor) = of_rows pre n (rows t)"
  using data_rows [of t pre n] by (simp add: of_rows_def)

lemma rows_ok_rows:
  "well_formed t \<Longrightarrow> shape t = pre @ [n] \<Longrightarrow> rows_ok pre n (rows t)"
  by (simp add: rows_ok_def rows_length rows_all_length)

lemma map_upt_nth: "length rs = k \<Longrightarrow> map f rs = map (\<lambda>x. f (rs ! x)) [0..<k]"
  by (rule nth_equalityI) simp_all

text \<open>Slices along the last axis.\<close>

lemma narrow_rows:
  assumes "rows_ok pre n rs" and "start + len \<le> n"
  shows "narrow (length pre) start len (of_rows pre n rs) =
           Inr (of_rows pre len (map (\<lambda>x. take len (drop start (rs ! x))) [0..<prod_list pre]))"
proof -
  have "narrow (length pre) start len (of_rows pre n rs) =
          Inr \<lparr>shape = pre @ [len],
               data = concat (map (\<lambda>r. take len (drop start r)) (rows (of_rows pre n rs)))\<rparr>"
    using narrow_last [of "of_rows pre n rs" pre n start len] assms(2) by simp
  also have "rows (of_rows pre n rs) = rs"
    using assms(1) by (rule rows_of_rows)
  also have "map (\<lambda>r. take len (drop start r)) rs =
             map (\<lambda>x. take len (drop start (rs ! x))) [0..<prod_list pre]"
    using rows_okD(1) [OF assms(1)] by (rule map_upt_nth)
  finally show ?thesis by (simp add: of_rows_def)
qed

lemma getters_rows:
  assumes "rows_ok pre (4 * H) rs" and "length pre = 1 \<or> length pre = 2"
  shows "get_r (of_rows pre (4 * H) rs) =
           Inr (of_rows pre H (map (\<lambda>x. take H (drop 0 (rs ! x))) [0..<prod_list pre]))"
    and "get_i (of_rows pre (4 * H) rs) =
           Inr (of_rows pre H (map (\<lambda>x. take H (drop H (rs ! x))) [0..<prod_list pre]))"
    and "get_j (of_rows pre (4 * H) rs) =
           Inr (of_rows pre H (map (\<lambda>x. take H (drop (2 * H) (rs ! x))) [0..<prod_list pre]))"
    and "get_k (of_rows pre (4 * H) rs) =
           Inr (of_rows pre H (map (\<lambda>x. take H (drop (3 * H) (rs ! x))) [0..<prod_list pre]))"
proof -
  let ?t = "of_rows pre (4 * H) rs"
  have rank: "dim ?t = 2 \<or> dim ?t = 3" using assms(2) by auto
  have last: "last (shape ?t) = 4 * H" by simp
  have r: "rows ?t = rs" using assms(1) by (rule rows_of_rows)
  have len: "length rs = prod_list pre" using assms(1) by (rule rows_okD)
  have bl: "butlast (shape ?t) = pre" by simp
  show "get_r ?t = Inr (of_rows pre H (map (\<lambda>x. take H (drop 0 (rs ! x))) [0..<prod_list pre]))"
    using get_r_eq [OF rank last]
    unfolding r bl map_upt_nth [OF len, of "\<lambda>r. take H (drop 0 r)"]
    by (simp add: of_rows_def)
  show "get_i ?t = Inr (of_rows pre H (map (\<lambda>x. take H (drop H (rs ! x))) [0..<prod_list pre]))"
    using get_i_eq [OF rank last]
    unfolding r bl map_upt_nth [OF len, of "\<lambda>r. take H (drop H r)"]
    by (simp add: of_rows_def)
  show "get_j ?t = Inr (of_rows pre H (map (\<lambda>x. take H (drop (2 * H) (rs ! x))) [0..<prod_list pre]))"
    using get_j_eq [OF rank last]
    unfolding r bl map_upt_nth [OF len, of "\<lambda>r. take H (drop (2 * H) r)"]
    by (simp add: of_rows_def)
  show "get_k ?t = Inr (of_rows pre H (map (\<lambda>x. take H (drop (3 * H) (rs ! x))) [0..<prod_list pre]))"
    using get_k_eq [OF rank last]
    unfolding r bl map_upt_nth [OF len, of "\<lambda>r. take H (drop (3 * H) r)"]
    by (simp add: of_rows_def)
qed

text \<open>Elementwise operations on tensors of one shape.\<close>

lemma bshape_rev_same: "bshape_rev xs xs = Some xs"
  by (induction xs) simp_all

lemma broadcast_shape_same: "broadcast_shape sh sh = Some sh"
  by (simp add: broadcast_shape_def bshape_rev_same)

lemma pad_shape_same [simp]: "pad_shape (length sh) sh = sh"
  by (simp add: pad_shape_def)

lemma expand_data_same: "length xs = prod_list sh \<Longrightarrow> expand_data sh sh xs = xs"
proof (induction sh arbitrary: xs)
  case Nil
  then show ?case by simp
next
  case (Cons s ss)
  have "map (\<lambda>b. expand_data ss ss (take (prod_list ss) (drop (b * prod_list ss) xs))) [0..<s]
        = chunks s (prod_list ss) xs"
    unfolding chunks_def
  proof (rule map_cong [OF refl])
    fix b assume "b \<in> set [0..<s]"
    then have "b < s" by simp
    then have "(b + 1) * prod_list ss \<le> s * prod_list ss"
      by (intro mult_le_mono1) simp
    then have "length (take (prod_list ss) (drop (b * prod_list ss) xs)) = prod_list ss"
      using Cons.prems by simp
    then show "expand_data ss ss (take (prod_list ss) (drop (b * prod_list ss) xs))
               = take (prod_list ss) (drop (b * prod_list ss) xs)"
      by (rule Cons.IH)
  qed
  then show ?case
    using Cons.prems by (simp add: concat_chunks)
qed

lemma tbin_same_shape:
  assumes "well_formed a" and "well_formed b" and "shape a = sh" and "shape b = sh"
  shows "tbin f a b = Inr \<lparr>shape = sh, data = map2 f (data a) (data b)\<rparr>"
  using assms
  by (simp add: tbin_def broadcast_shape_same expand_data_same well_formed_def)

lemma map2_concat_upt:
  assumes "length as = k" and "length bs = k"
    and "\<And>x. x < k \<Longrightarrow> length (as ! x) = length (bs ! x)"
  shows "map2 f (concat as) (concat bs) = concat (map (\<lambda>x. map2 f (as ! x) (bs ! x)) [0..<k])"
  using assms
proof (induction as arbitrary: bs k)
  case Nil
  then show ?case by simp
next
  case (Cons a as)
  then obtain b bs' k' where bs: "bs = b # bs'" and k: "k = Suc k'"
    by (cases bs; cases k) auto
  have ab: "length a = length b" using Cons.prems(3) [of 0] bs k by simp
  have ih: "map2 f (concat as) (concat bs') =
            concat (map (\<lambda>x. map2 f (as ! x) (bs' ! x)) [0..<k'])"
  proof (rule Cons.IH)
    show "length as = k'" using Cons.prems(1) k by simp
    show "length bs' = k'" using Cons.prems(2) bs k by simp
    fix x assume "x < k'"
    then show "length (as ! x) = length (bs' ! x)"
      using Cons.prems(3) [of "Suc x"] bs k by simp
  qed
  have "[0..<Suc k'] = 0 # map Suc [0..<k']"
    by (simp add: upt_conv_Cons map_Suc_upt del: upt_Suc)
  then show ?case
    using ab ih by (simp add: bs k comp_def del: upt_Suc)
qed

lemma tbin_rows:
  assumes "rows_ok pre n as" and "rows_ok pre n bs"
  shows "tbin f (of_rows pre n as) (of_rows pre n bs) =
           Inr (of_rows pre n (map (\<lambda>x. map2 f (as ! x) (bs ! x)) [0..<prod_list pre]))"
proof -
  have "map2 f (concat as) (concat bs) =
        concat (map (\<lambda>x. map2 f (as ! x) (bs ! x)) [0..<prod_list pre])"
    using assms by (intro map2_concat_upt) (simp_all add: rows_okD)
  then show ?thesis
    using tbin_same_shape [OF wf_of_rows [OF assms(1)] wf_of_rows [OF assms(2)], of "pre @ [n]" f]
    by (simp add: of_rows_def)
qed

text \<open>Concatenation of four tensors along the last axis.\<close>

lemma cat_rows:
  assumes "rows_ok pre na as" and "rows_ok pre nb bs" and "rows_ok pre nc cs" and "rows_ok pre nd ds"
  shows "cat [of_rows pre na as, of_rows pre nb bs, of_rows pre nc cs, of_rows pre nd ds]
             (length pre) =
           Inr (of_rows pre (na + nb + nc + nd)
                  (map (\<lambda>x. as ! x @ bs ! x @ cs ! x @ ds ! x) [0..<prod_list pre]))"
  using cat_last4 [OF shape_of_rows shape_of_rows shape_of_rows shape_of_rows,
      of pre na as nb bs nc cs nd ds]
  unfolding rows_of_rows [OF assms(1)] rows_of_rows [OF assms(2)]
    rows_of_rows [OF assms(3)] rows_of_rows [OF assms(4)]
  by (simp add: of_rows_def)


lemma tab_of_rows: "rows_ok pre n rs \<Longrightarrow> of_rows pre n rs = tab pre n (\<lambda>x. rs ! x)"
  using map_upt_nth [of rs "prod_list pre" "\<lambda>r. r"]
  by (simp add: tab_def rows_ok_def)

lemma tab_wf_tensor:
  "well_formed t \<Longrightarrow> shape t = pre @ [n] \<Longrightarrow> (t :: 'a tensor) = tab pre n (\<lambda>x. rows t ! x)"
  using of_rows_rows [of t pre n] tab_of_rows [OF rows_ok_rows, of t pre n] by simp

lemma rows_ok_tab:
  "(\<And>x. x < prod_list pre \<Longrightarrow> length (f x) = n) \<Longrightarrow> rows_ok pre n (map f [0..<prod_list pre])"
  by (rule rows_ok_map_upt)

lemma map_upt_cong: "(\<And>x. x < k \<Longrightarrow> f x = g x) \<Longrightarrow> map f [0..<k] = map g [0..<k]"
  by (rule map_cong) simp_all

lemma tab_cong:
  "(\<And>x. x < prod_list pre \<Longrightarrow> f x = g x) \<Longrightarrow> tab pre n f = tab pre n g"
  unfolding tab_def by (rule arg_cong [where f = "of_rows pre n"]) (rule map_upt_cong)

lemma shape_tab [simp]: "shape (tab pre n f) = pre @ [n]"
  by (simp add: tab_def)

lemma wf_tab:
  "(\<And>x. x < prod_list pre \<Longrightarrow> length (f x) = n) \<Longrightarrow> well_formed (tab pre n f)"
  unfolding tab_def by (rule wf_of_rows) (rule rows_ok_map_upt)

lemma rows_tab:
  "(\<And>x. x < prod_list pre \<Longrightarrow> length (f x) = n) \<Longrightarrow> rows (tab pre n f) = map f [0..<prod_list pre]"
  unfolding tab_def by (rule rows_of_rows) (rule rows_ok_map_upt)

lemma elem_tab:
  "(\<And>x. x < prod_list pre \<Longrightarrow> length (f x) = n) \<Longrightarrow> b < prod_list pre
     \<Longrightarrow> elem (tab pre n f) b c = f b ! c"
  by (simp add: elem_def rows_tab)

lemma getters_tab:
  assumes "\<And>x. x < prod_list pre \<Longrightarrow> length (f x) = 4 * H" and "length pre = 1 \<or> length pre = 2"
  shows "get_r (tab pre (4 * H) f) = Inr (tab pre H (\<lambda>x. take H (drop 0 (f x))))"
    and "get_i (tab pre (4 * H) f) = Inr (tab pre H (\<lambda>x. take H (drop H (f x))))"
    and "get_j (tab pre (4 * H) f) = Inr (tab pre H (\<lambda>x. take H (drop (2 * H) (f x))))"
    and "get_k (tab pre (4 * H) f) = Inr (tab pre H (\<lambda>x. take H (drop (3 * H) (f x))))"
proof -
  let ?rs = "map f [0..<prod_list pre]"
  have ok: "rows_ok pre (4 * H) ?rs"
    using assms(1) by (rule rows_ok_map_upt)
  have eq: "map (\<lambda>x. take H (drop s (?rs ! x))) [0..<prod_list pre]
            = map (\<lambda>x. take H (drop s (f x))) [0..<prod_list pre]" for s
    by (rule map_upt_cong) simp
  show "get_r (tab pre (4 * H) f) = Inr (tab pre H (\<lambda>x. take H (drop 0 (f x))))"
    unfolding tab_def using getters_rows(1) [OF ok assms(2)] unfolding eq .
  show "get_i (tab pre (4 * H) f) = Inr (tab pre H (\<lambda>x. take H (drop H (f x))))"
    unfolding tab_def using getters_rows(2) [OF ok assms(2)] unfolding eq .
  show "get_j (tab pre (4 * H) f) = Inr (tab pre H (\<lambda>x. take H (drop (2 * H) (f x))))"
    unfolding tab_def using getters_rows(3) [OF ok assms(2)] unfolding eq .
  show "get_k (tab pre (4 * H) f) = Inr (tab pre H (\<lambda>x. take H (drop (3 * H) (f x))))"
    unfolding tab_def using getters_rows(4) [OF ok assms(2)] unfolding eq .
qed

lemma tbin_tab:
  assumes "\<And>x. x < prod_list pre \<Longrightarrow> length (f x) = n"
    and "\<And>x. x < prod_list pre \<Longrightarrow> length (g x) = n"
  shows "tbin h (tab pre n f) (tab pre n g) = Inr (tab pre n (\<lambda>x. map2 h (f x) (g x)))"
proof -
  let ?fs = "map f [0..<prod_list pre]" and ?gs = "map g [0..<prod_list pre]"
  have eq: "map (\<lambda>x. map2 h (?fs ! x) (?gs ! x)) [0..<prod_list pre]
            = map (\<lambda>x. map2 h (f x) (g x)) [0..<prod_list pre]"
    by (rule map_upt_cong) simp
  show ?thesis
    unfolding tab_def
    using tbin_rows [OF rows_ok_map_upt [of pre f n, OF assms(1)]
        rows_ok_map_upt [of pre g n, OF assms(2)], of h]
    unfolding eq .
qed

lemma cat_tab:
  assumes "\<And>x. x < prod_list pre \<Longrightarrow> length (f1 x) = n1"
    and "\<And>x. x < prod_list pre \<Longrightarrow> length (f2 x) = n2"
    and "\<And>x. x < prod_list pre \<Longrightarrow> length (f3 x) = n3"
    and "\<And>x. x < prod_list pre \<Longrightarrow> length (f4 x) = n4"
  shows "cat [tab pre n1 f1, tab pre n2 f2, tab pre n3 f3, tab pre n4 f4] (length pre) =
           Inr (tab pre (n1 + n2 + n3 + n4) (\<lambda>x. f1 x @ f2 x @ f3 x @ f4 x))"
proof -
  let ?k = "prod_list pre"
  have eq: "map (\<lambda>x. map f1 [0..<?k] ! x @ map f2 [0..<?k] ! x @
                     map f3 [0..<?k] ! x @ map f4 [0..<?k] ! x) [0..<?k]
            = map (\<lambda>x. f1 x @ f2 x @ f3 x @ f4 x) [0..<?k]"
    by (rule map_upt_cong) simp
  show ?thesis
    unfolding tab_def
    using cat_rows [OF rows_ok_map_upt [of pre f1 n1, OF assms(1)]
        rows_ok_map_upt [of pre f2 n2, OF assms(2)]
        rows_ok_map_upt [of pre f3 n3, OF assms(3)]
        rows_ok_map_upt [of pre f4 n4, OF assms(4)]]
    unfolding eq .
qed

section \<open>Properties of the Hamilton product\<close>

lemma get2:
  assumes "\<And>x. x < B \<Longrightarrow> length (f x) = 4 * H"
  shows "get_r (tab [B] (4 * H) f) = Inr (tab [B] H (\<lambda>x. take H (drop 0 (f x))))"
    and "get_i (tab [B] (4 * H) f) = Inr (tab [B] H (\<lambda>x. take H (drop H (f x))))"
    and "get_j (tab [B] (4 * H) f) = Inr (tab [B] H (\<lambda>x. take H (drop (2 * H) (f x))))"
    and "get_k (tab [B] (4 * H) f) = Inr (tab [B] H (\<lambda>x. take H (drop (3 * H) (f x))))"
  using getters_tab [of "[B]" f H] assms by simp_all

lemma tbin2:
  assumes "\<And>x. x < B \<Longrightarrow> length (f x) = n" and "\<And>x. x < B \<Longrightarrow> length (g x) = n"
  shows "tbin h (tab [B] n f) (tab [B] n g) = Inr (tab [B] n (\<lambda>x. map2 h (f x) (g x)))"
  using tbin_tab [of "[B]" f n g h] assms by simp

lemma cat2:
  assumes "\<And>x. x < B \<Longrightarrow> length (f1 x) = H" and "\<And>x. x < B \<Longrightarrow> length (f2 x) = H"
    and "\<And>x. x < B \<Longrightarrow> length (f3 x) = H" and "\<And>x. x < B \<Longrightarrow> length (f4 x) = H"
  shows "cat [tab [B] H f1, tab [B] H f2, tab [B] H f3, tab [B] H f4] (Suc 0) =
           Inr (tab [B] (4 * H) (\<lambda>x. f1 x @ f2 x @ f3 x @ f4 x))"
proof -
  have e: "H + H + H + H = 4 * H" by simp
  show ?thesis
    using cat_tab [of "[B]" f1 H f2 H f3 H f4 H] assms unfolding e by simp
qed

lemma length_slice:
  "length v = 4 * H \<Longrightarrow> length (take H (drop 0 v)) = H"
  "length v = 4 * H \<Longrightarrow> length (take H (drop H v)) = H"
  "length v = 4 * H \<Longrightarrow> length (take H (drop (2 * H) v)) = H"
  "length v = 4 * H \<Longrightarrow> length (take H (drop (3 * H) v)) = H"
  by simp_all

lemma length_combine4:
  "length v = 4 * H \<Longrightarrow> length (combine4 f1 f2 f3 H v) = H"
  by (simp add: combine4_def)

lemma combine_tab:
  assumes lp: "\<And>x. x < B \<Longrightarrow> length (p x) = 4 * H"
  shows "bnd (get_r (tab [B] (4 * H) p)) (\<lambda>a0.
         bnd (get_i (tab [B] (4 * H) p)) (\<lambda>a1.
         bnd (tbin f1 a0 a1) (\<lambda>a01.
         bnd (get_j (tab [B] (4 * H) p)) (\<lambda>a2.
         bnd (tbin f2 a01 a2) (\<lambda>a012.
         bnd (get_k (tab [B] (4 * H) p)) (\<lambda>a3.
         bnd (tbin f3 a012 a3) K))))))
         = K (tab [B] H (\<lambda>x. combine4 f1 f2 f3 H (p x)))"
proof -
  have s: "length (take H (drop 0 (p x))) = H" "length (take H (drop H (p x))) = H"
    "length (take H (drop (2 * H) (p x))) = H" "length (take H (drop (3 * H) (p x))) = H"
    if "x < B" for x
    using lp [OF that] by simp_all
  have a: "tbin f1 (tab [B] H (\<lambda>x. take H (drop 0 (p x)))) (tab [B] H (\<lambda>x. take H (drop H (p x))))
     = Inr (tab [B] H (\<lambda>x. map2 f1 (take H (drop 0 (p x))) (take H (drop H (p x)))))"
    by (rule tbin2) (rule s; assumption)+
  have b: "tbin f2 (tab [B] H (\<lambda>x. map2 f1 (take H (drop 0 (p x))) (take H (drop H (p x)))))
                   (tab [B] H (\<lambda>x. take H (drop (2 * H) (p x))))
     = Inr (tab [B] H (\<lambda>x. map2 f2 (map2 f1 (take H (drop 0 (p x))) (take H (drop H (p x))))
                                    (take H (drop (2 * H) (p x)))))"
    by (rule tbin2) (simp_all add: lp)
  have c: "tbin f3 (tab [B] H (\<lambda>x. map2 f2 (map2 f1 (take H (drop 0 (p x))) (take H (drop H (p x))))
                                    (take H (drop (2 * H) (p x)))))
                   (tab [B] H (\<lambda>x. take H (drop (3 * H) (p x))))
     = Inr (tab [B] H (\<lambda>x. combine4 f1 f2 f3 H (p x)))"
    unfolding combine4_def by (rule tbin2) (simp_all add: lp)
  show ?thesis
    by (simp only: get2 [of B p H, OF lp] bnd_Inr a b c)
qed

lemma hamilton_tab:
  fixes f g :: "nat \<Rightarrow> 'a::{plus,minus,times} list"
  assumes lf: "\<And>x. x < B \<Longrightarrow> length (f x) = 4 * H"
    and lg: "\<And>x. x < B \<Longrightarrow> length (g x) = 4 * H"
  shows "hamilton_product (tab [B] (4 * H) f) (tab [B] (4 * H) g)
           = Inr (tab [B] (4 * H) (\<lambda>x. ham_row H (f x) (g x)))"
proof -
  have s: "length (take H (drop 0 (g x))) = H" "length (take H (drop H (g x))) = H"
    "length (take H (drop (2 * H) (g x))) = H" "length (take H (drop (3 * H) (g x))) = H"
    if "x < B" for x
    using lg [OF that] by simp_all
  have m: "tmul (tab [B] (4 * H) f) (tab [B] (4 * H) u) = Inr (tab [B] (4 * H) (\<lambda>x. map2 (*) (f x) (u x)))"
    if "\<And>x. x < B \<Longrightarrow> length (u x) = 4 * H" for u
    unfolding tmul_def by (rule tbin2) (rule lf that; assumption)+
  have lm: "length (map2 (*) (f x) (u x)) = 4 * H"
    if "x < B" "length (u x) = 4 * H" for u and x
    using lf [OF that(1)] that(2) by simp
  have l4: "length (u0 @ u1 @ u2 @ u3) = 4 * H"
    if "length u0 = H" "length u1 = H" "length u2 = H" "length u3 = H" for u0 u1 u2 u3 :: "'a list"
    using that by simp
  have pi: "cat [tab [B] H (\<lambda>x. take H (drop H (g x))), tab [B] H (\<lambda>x. take H (drop 0 (g x))),
                 tab [B] H (\<lambda>x. take H (drop (3 * H) (g x))), tab [B] H (\<lambda>x. take H (drop (2 * H) (g x)))]
                (Suc 0)
            = Inr (tab [B] (4 * H) (\<lambda>x. take H (drop H (g x)) @ take H (drop 0 (g x)) @
                    take H (drop (3 * H) (g x)) @ take H (drop (2 * H) (g x))))"
    by (rule cat2) (rule s; assumption)+
  have pj: "cat [tab [B] H (\<lambda>x. take H (drop (2 * H) (g x))), tab [B] H (\<lambda>x. take H (drop (3 * H) (g x))),
                 tab [B] H (\<lambda>x. take H (drop 0 (g x))), tab [B] H (\<lambda>x. take H (drop H (g x)))]
                (Suc 0)
            = Inr (tab [B] (4 * H) (\<lambda>x. take H (drop (2 * H) (g x)) @ take H (drop (3 * H) (g x)) @
                    take H (drop 0 (g x)) @ take H (drop H (g x))))"
    by (rule cat2) (rule s; assumption)+
  have pk: "cat [tab [B] H (\<lambda>x. take H (drop (3 * H) (g x))), tab [B] H (\<lambda>x. take H (drop (2 * H) (g x))),
                 tab [B] H (\<lambda>x. take H (drop H (g x))), tab [B] H (\<lambda>x. take H (drop 0 (g x)))]
                (Suc 0)
            = Inr (tab [B] (4 * H) (\<lambda>x. take H (drop (3 * H) (g x)) @ take H (drop (2 * H) (g x)) @
                    take H (drop H (g x)) @ take H (drop 0 (g x))))"
    by (rule cat2) (rule s; assumption)+
  have m0: "tmul (tab [B] (4 * H) f) (tab [B] (4 * H) g) = Inr (tab [B] (4 * H) (\<lambda>x. map2 (*) (f x) (g x)))"
    by (rule m) (rule lg)
  have mi: "tmul (tab [B] (4 * H) f) (tab [B] (4 * H) (\<lambda>x. take H (drop H (g x)) @ take H (drop 0 (g x)) @
                    take H (drop (3 * H) (g x)) @ take H (drop (2 * H) (g x))))
       = Inr (tab [B] (4 * H) (\<lambda>x. map2 (*) (f x) (take H (drop H (g x)) @ take H (drop 0 (g x)) @
                    take H (drop (3 * H) (g x)) @ take H (drop (2 * H) (g x)))))"
    by (rule m) (rule l4; rule s; assumption)
  have mj: "tmul (tab [B] (4 * H) f) (tab [B] (4 * H) (\<lambda>x. take H (drop (2 * H) (g x)) @ take H (drop (3 * H) (g x)) @
                    take H (drop 0 (g x)) @ take H (drop H (g x))))
       = Inr (tab [B] (4 * H) (\<lambda>x. map2 (*) (f x) (take H (drop (2 * H) (g x)) @ take H (drop (3 * H) (g x)) @
                    take H (drop 0 (g x)) @ take H (drop H (g x)))))"
    by (rule m) (rule l4; rule s; assumption)
  have mk: "tmul (tab [B] (4 * H) f) (tab [B] (4 * H) (\<lambda>x. take H (drop (3 * H) (g x)) @ take H (drop (2 * H) (g x)) @
                    take H (drop H (g x)) @ take H (drop 0 (g x))))
       = Inr (tab [B] (4 * H) (\<lambda>x. map2 (*) (f x) (take H (drop (3 * H) (g x)) @ take H (drop (2 * H) (g x)) @
                    take H (drop H (g x)) @ take H (drop 0 (g x)))))"
    by (rule m) (rule l4; rule s; assumption)
  have cr: "length (map2 (*) (f x) (g x)) = 4 * H" if "x < B" for x
    using lf [OF that] lg [OF that] by simp
  have ci: "length (map2 (*) (f x) (take H (drop H (g x)) @ take H (drop 0 (g x)) @
                    take H (drop (3 * H) (g x)) @ take H (drop (2 * H) (g x)))) = 4 * H" if "x < B" for x
    using lf [OF that] lg [OF that] by simp
  have cj: "length (map2 (*) (f x) (take H (drop (2 * H) (g x)) @ take H (drop (3 * H) (g x)) @
                    take H (drop 0 (g x)) @ take H (drop H (g x)))) = 4 * H" if "x < B" for x
    using lf [OF that] lg [OF that] by simp
  have ck: "length (map2 (*) (f x) (take H (drop (3 * H) (g x)) @ take H (drop (2 * H) (g x)) @
                    take H (drop H (g x)) @ take H (drop 0 (g x)))) = 4 * H" if "x < B" for x
    using lf [OF that] lg [OF that] by simp
  have fin: "cat [tab [B] H (\<lambda>x. combine4 (-) (-) (-) H (map2 (*) (f x) (g x))),
                  tab [B] H (\<lambda>x. combine4 (+) (+) (-) H (map2 (*) (f x) (take H (drop H (g x)) @ take H (drop 0 (g x)) @
                    take H (drop (3 * H) (g x)) @ take H (drop (2 * H) (g x))))),
                  tab [B] H (\<lambda>x. combine4 (-) (+) (+) H (map2 (*) (f x) (take H (drop (2 * H) (g x)) @ take H (drop (3 * H) (g x)) @
                    take H (drop 0 (g x)) @ take H (drop H (g x))))),
                  tab [B] H (\<lambda>x. combine4 (+) (-) (+) H (map2 (*) (f x) (take H (drop (3 * H) (g x)) @ take H (drop (2 * H) (g x)) @
                    take H (drop H (g x)) @ take H (drop 0 (g x)))))] (Suc 0)
      = Inr (tab [B] (4 * H) (\<lambda>x. ham_row H (f x) (g x)))"
    unfolding ham_row_def
    by (rule cat2) (rule length_combine4, rule cr ci cj ck, assumption)+
  show ?thesis
    unfolding hamilton_product_def tsub_def tadd_def
    by (simp only: get2 [of B g H, OF lg] bnd_Inr m0 mi mj mk pi pj pk One_nat_def
        combine_tab [of B _ H, OF cr] combine_tab [of B _ H, OF ci]
        combine_tab [of B _ H, OF cj] combine_tab [of B _ H, OF ck] fin)
qed


lemma combine4_nth:
  assumes "length v = 4 * H" and "c < H"
  shows "combine4 f1 f2 f3 H v ! c = f3 (f2 (f1 (v ! c) (v ! (H + c))) (v ! (2 * H + c))) (v ! (3 * H + c))"
  using assms by (simp add: combine4_def)

lemma append4_nth:
  assumes "length u0 = H" "length u1 = H" "length u2 = H" "length u3 = H" and "c < H"
  shows "(u0 @ u1 @ u2 @ u3) ! c = u0 ! c"
    and "(u0 @ u1 @ u2 @ u3) ! (H + c) = u1 ! c"
    and "(u0 @ u1 @ u2 @ u3) ! (2 * H + c) = u2 ! c"
    and "(u0 @ u1 @ u2 @ u3) ! (3 * H + c) = u3 ! c"
  using assms by (simp_all add: nth_append)

lemma slice_nth:
  assumes "length v = 4 * H" and "c < H"
  shows "take H (drop 0 v) ! c = v ! c"
    and "take H (drop H v) ! c = v ! (H + c)"
    and "take H (drop (2 * H) v) ! c = v ! (2 * H + c)"
    and "take H (drop (3 * H) v) ! c = v ! (3 * H + c)"
  using assms by simp_all

lemma perm_mul_nth:
  fixes a b :: "'a::times list"
  assumes la: "length a = 4 * H" and lb: "length b = 4 * H" and c: "c < H"
    and l: "length u0 = H" "length u1 = H" "length u2 = H" "length u3 = H"
  shows "map2 (*) a (u0 @ u1 @ u2 @ u3) ! c = a ! c * u0 ! c"
    and "map2 (*) a (u0 @ u1 @ u2 @ u3) ! (H + c) = a ! (H + c) * u1 ! c"
    and "map2 (*) a (u0 @ u1 @ u2 @ u3) ! (2 * H + c) = a ! (2 * H + c) * u2 ! c"
    and "map2 (*) a (u0 @ u1 @ u2 @ u3) ! (3 * H + c) = a ! (3 * H + c) * u3 ! c"
  using la c l append4_nth [OF l c] by simp_all

lemma ham_row_nth:
  fixes a b :: "'a::{plus,minus,times} list"
  assumes la: "length a = 4 * H" and lb: "length b = 4 * H" and c: "c < H"
  shows "ham_row H a b ! c =
           a ! c * b ! c - a ! (H + c) * b ! (H + c)
             - a ! (2 * H + c) * b ! (2 * H + c) - a ! (3 * H + c) * b ! (3 * H + c)"
    and "ham_row H a b ! (H + c) =
           a ! c * b ! (H + c) + a ! (H + c) * b ! c
             + a ! (2 * H + c) * b ! (3 * H + c) - a ! (3 * H + c) * b ! (2 * H + c)"
    and "ham_row H a b ! (2 * H + c) =
           a ! c * b ! (2 * H + c) - a ! (H + c) * b ! (3 * H + c)
             + a ! (2 * H + c) * b ! c + a ! (3 * H + c) * b ! (H + c)"
    and "ham_row H a b ! (3 * H + c) =
           a ! c * b ! (3 * H + c) + a ! (H + c) * b ! (2 * H + c)
             - a ! (2 * H + c) * b ! (H + c) + a ! (3 * H + c) * b ! c"
proof -
  let ?s0 = "take H (drop 0 b)" and ?s1 = "take H (drop H b)"
  let ?s2 = "take H (drop (2 * H) b)" and ?s3 = "take H (drop (3 * H) b)"
  have ls: "length ?s0 = H" "length ?s1 = H" "length ?s2 = H" "length ?s3 = H"
    using lb by simp_all
  let ?rb = "map2 (*) a b"
  let ?ib = "map2 (*) a (?s1 @ ?s0 @ ?s3 @ ?s2)"
  let ?jb = "map2 (*) a (?s2 @ ?s3 @ ?s0 @ ?s1)"
  let ?kb = "map2 (*) a (?s3 @ ?s2 @ ?s1 @ ?s0)"
  have lr: "length ?rb = 4 * H" using la lb by simp
  have li: "length ?ib = 4 * H" using la lb by simp
  have lj: "length ?jb = 4 * H" using la lb by simp
  have lk: "length ?kb = 4 * H" using la lb by simp
  have lc: "length (combine4 f1 f2 f3 H ?rb) = H" "length (combine4 f1 f2 f3 H ?ib) = H"
    "length (combine4 f1 f2 f3 H ?jb) = H" "length (combine4 f1 f2 f3 H ?kb) = H"
    for f1 f2 f3 :: "'a \<Rightarrow> 'a \<Rightarrow> 'a"
    using lr li lj lk by (simp_all only: length_combine4)
  have rb: "?rb ! c = a ! c * b ! c" "?rb ! (H + c) = a ! (H + c) * b ! (H + c)"
    "?rb ! (2 * H + c) = a ! (2 * H + c) * b ! (2 * H + c)"
    "?rb ! (3 * H + c) = a ! (3 * H + c) * b ! (3 * H + c)"
    using la lb c by simp_all
  note sn = slice_nth [OF lb c]
  note ib = perm_mul_nth [OF la lb c ls(2) ls(1) ls(4) ls(3)]
  note jb = perm_mul_nth [OF la lb c ls(3) ls(4) ls(1) ls(2)]
  note kb = perm_mul_nth [OF la lb c ls(4) ls(3) ls(2) ls(1)]
  have split: "(x0 @ x1 @ x2 @ x3) ! c = x0 ! c" "(x0 @ x1 @ x2 @ x3) ! (H + c) = x1 ! c"
    "(x0 @ x1 @ x2 @ x3) ! (2 * H + c) = x2 ! c" "(x0 @ x1 @ x2 @ x3) ! (3 * H + c) = x3 ! c"
    if "length x0 = H" "length x1 = H" "length x2 = H" "length x3 = H" for x0 x1 x2 x3 :: "'a list"
    using append4_nth [OF that c] by simp_all
  note sp = split [OF lc(1) lc(2) lc(3) lc(4)]
  show "ham_row H a b ! c =
           a ! c * b ! c - a ! (H + c) * b ! (H + c)
             - a ! (2 * H + c) * b ! (2 * H + c) - a ! (3 * H + c) * b ! (3 * H + c)"
    unfolding ham_row_def by (simp only: sp combine4_nth [OF lr c] rb)
  show "ham_row H a b ! (H + c) =
           a ! c * b ! (H + c) + a ! (H + c) * b ! c
             + a ! (2 * H + c) * b ! (3 * H + c) - a ! (3 * H + c) * b ! (2 * H + c)"
    unfolding ham_row_def by (simp only: sp combine4_nth [OF li c] ib sn)
  show "ham_row H a b ! (2 * H + c) =
           a ! c * b ! (2 * H + c) - a ! (H + c) * b ! (3 * H + c)
             + a ! (2 * H + c) * b ! c + a ! (3 * H + c) * b ! (H + c)"
    unfolding ham_row_def by (simp only: sp combine4_nth [OF lj c] jb sn)
  show "ham_row H a b ! (3 * H + c) =
           a ! c * b ! (3 * H + c) + a ! (H + c) * b ! (2 * H + c)
             - a ! (2 * H + c) * b ! (H + c) + a ! (3 * H + c) * b ! c"
    unfolding ham_row_def by (simp only: sp combine4_nth [OF lk c] kb sn)
qed

lemma length_ham_row:
  fixes a b :: "'a::{plus,minus,times} list"
  shows "length a = 4 * H \<Longrightarrow> length b = 4 * H \<Longrightarrow> length (ham_row H a b) = 4 * H"
  by (simp add: ham_row_def combine4_def)


lemma rank2_tab:
  assumes "well_formed t" and "shape t = [B, n]"
  shows "(t :: 'a tensor) = tab [B] n (\<lambda>x. rows t ! x)"
    and "\<And>x. x < B \<Longrightarrow> length (rows t ! x) = n"
proof -
  have sh: "shape t = [B] @ [n]" using assms(2) by simp
  show "t = tab [B] n (\<lambda>x. rows t ! x)"
    using assms(1) sh by (rule tab_wf_tensor)
  have "rows_ok [B] n (rows t)" using assms(1) sh by (rule rows_ok_rows)
  then show "\<And>x. x < B \<Longrightarrow> length (rows t ! x) = n"
    using rows_okD(2) [of "[B]" n "rows t"] by simp
qed

text \<open>
  C3. For well-formed rank-2 tensors \<open>q0\<close> and \<open>q1\<close> of the same shape \<open>[B, 4 * H]\<close>,
  \<open>hamilton_product q0 q1\<close> returns a tensor of that shape whose r, i, j and k segments
  hold, at every row and feature, the four combinations of the quaternion
  multiplication table, with the signs and the order of operations of the specification.
\<close>

theorem hamilton_product_formula:
  fixes q0 q1 :: "'a::{plus,minus,times} tensor"
  assumes wf0: "well_formed q0" and wf1: "well_formed q1"
    and sh0: "shape q0 = [B, 4 * H]" and sh1: "shape q1 = [B, 4 * H]"
  shows "\<exists>q. hamilton_product q0 q1 = Inr q \<and> shape q = [B, 4 * H] \<and> well_formed q \<and>
           (\<forall>b<B. \<forall>c<H.
              qr H q b c = qr H q0 b c * qr H q1 b c - qi H q0 b c * qi H q1 b c
                           - qj H q0 b c * qj H q1 b c - qk H q0 b c * qk H q1 b c \<and>
              qi H q b c = qr H q0 b c * qi H q1 b c + qi H q0 b c * qr H q1 b c
                           + qj H q0 b c * qk H q1 b c - qk H q0 b c * qj H q1 b c \<and>
              qj H q b c = qr H q0 b c * qj H q1 b c - qi H q0 b c * qk H q1 b c
                           + qj H q0 b c * qr H q1 b c + qk H q0 b c * qi H q1 b c \<and>
              qk H q b c = qr H q0 b c * qk H q1 b c + qi H q0 b c * qj H q1 b c
                           - qj H q0 b c * qi H q1 b c + qk H q0 b c * qr H q1 b c)"
proof -
  define f where "f x = rows q0 ! x" for x
  define g where "g x = rows q1 ! x" for x
  define q where "q = tab [B] (4 * H) (\<lambda>x. ham_row H (f x) (g x))"
  have t0: "q0 = tab [B] (4 * H) f" and lf: "\<And>x. x < B \<Longrightarrow> length (f x) = 4 * H"
    unfolding f_def using rank2_tab [OF wf0 sh0] by simp_all
  have t1: "q1 = tab [B] (4 * H) g" and lg: "\<And>x. x < B \<Longrightarrow> length (g x) = 4 * H"
    unfolding g_def using rank2_tab [OF wf1 sh1] by simp_all
  have lh: "length (ham_row H (f x) (g x)) = 4 * H" if "x < B" for x
    using lf [OF that] lg [OF that] by (rule length_ham_row)
  have res: "hamilton_product q0 q1 = Inr q"
    unfolding q_def using hamilton_tab [of B f H g, OF lf lg] t0 t1 by simp
  have shq: "shape q = [B, 4 * H]" by (simp add: q_def)
  have wfq: "well_formed q" unfolding q_def by (rule wf_tab) (simp add: lh)
  have e: "elem q b n = ham_row H (f b) (g b) ! n" if "b < B" for b n
    unfolding q_def using that by (intro elem_tab) (simp_all add: lh)
  have e0: "elem q0 b n = f b ! n" and e1: "elem q1 b n = g b ! n" for b n
    by (simp_all add: elem_def f_def g_def)
  have "qr H q b c = qr H q0 b c * qr H q1 b c - qi H q0 b c * qi H q1 b c
                           - qj H q0 b c * qj H q1 b c - qk H q0 b c * qk H q1 b c \<and>
        qi H q b c = qr H q0 b c * qi H q1 b c + qi H q0 b c * qr H q1 b c
                           + qj H q0 b c * qk H q1 b c - qk H q0 b c * qj H q1 b c \<and>
        qj H q b c = qr H q0 b c * qj H q1 b c - qi H q0 b c * qk H q1 b c
                           + qj H q0 b c * qr H q1 b c + qk H q0 b c * qi H q1 b c \<and>
        qk H q b c = qr H q0 b c * qk H q1 b c + qi H q0 b c * qj H q1 b c
                           - qj H q0 b c * qi H q1 b c + qk H q0 b c * qr H q1 b c"
    if b: "b < B" and c: "c < H" for b c
    unfolding qr_def qi_def qj_def qk_def e [OF b] e0 e1
    using ham_row_nth [OF lf [OF b] lg [OF b] c] by simp
  then show ?thesis
    using res shq wfq by blast
qed

theorem hamilton_product_formula_witness:
  "well_formed \<lparr>shape = [1, 4], data = [2, 3, 5, 7 :: int]\<rparr> \<and>
   well_formed \<lparr>shape = [1, 4], data = [11, 13, 17, 19 :: int]\<rparr> \<and>
   (\<exists>q. hamilton_product \<lparr>shape = [1, 4], data = [2, 3, 5, 7 :: int]\<rparr>
                          \<lparr>shape = [1, 4], data = [11, 13, 17, 19 :: int]\<rparr> = Inr q \<and>
        qr 1 q 0 0 = 2 * 11 - 3 * 13 - 5 * 17 - 7 * 19 \<and>
        qi 1 q 0 0 = 2 * 13 + 3 * 11 + 5 * 19 - 7 * 17 \<and>
        qj 1 q 0 0 = 2 * 17 - 3 * 19 + 5 * 11 + 7 * 13 \<and>
        qk 1 q 0 0 = 2 * 19 + 3 * 17 - 5 * 13 + 7 * 11)"
proof -
  let ?a = "\<lparr>shape = [1, 4], data = [2, 3, 5, 7 :: int]\<rparr>"
  let ?b = "\<lparr>shape = [1, 4], data = [11, 13, 17, 19 :: int]\<rparr>"
  have wa: "well_formed ?a" and wb: "well_formed ?b"
    by (simp_all add: well_formed_def)
  have sa: "shape ?a = [1, 4 * 1]" and sb: "shape ?b = [1, 4 * 1]" by simp_all
  have v: "qr 1 ?a 0 0 = 2" "qi 1 ?a 0 0 = 3" "qj 1 ?a 0 0 = 5" "qk 1 ?a 0 0 = 7"
    "qr 1 ?b 0 0 = 11" "qi 1 ?b 0 0 = 13" "qj 1 ?b 0 0 = 17" "qk 1 ?b 0 0 = 19"
    by (simp_all add: qr_def qi_def qj_def qk_def elem_def rows_def chunks_def)
  from hamilton_product_formula [OF wa wb sa sb]
  obtain q where q: "hamilton_product ?a ?b = Inr q"
    and f: "\<forall>b<1. \<forall>c<1.
              qr 1 q b c = qr 1 ?a b c * qr 1 ?b b c - qi 1 ?a b c * qi 1 ?b b c
                           - qj 1 ?a b c * qj 1 ?b b c - qk 1 ?a b c * qk 1 ?b b c \<and>
              qi 1 q b c = qr 1 ?a b c * qi 1 ?b b c + qi 1 ?a b c * qr 1 ?b b c
                           + qj 1 ?a b c * qk 1 ?b b c - qk 1 ?a b c * qj 1 ?b b c \<and>
              qj 1 q b c = qr 1 ?a b c * qj 1 ?b b c - qi 1 ?a b c * qk 1 ?b b c
                           + qj 1 ?a b c * qr 1 ?b b c + qk 1 ?a b c * qi 1 ?b b c \<and>
              qk 1 q b c = qr 1 ?a b c * qk 1 ?b b c + qi 1 ?a b c * qj 1 ?b b c
                           - qj 1 ?a b c * qi 1 ?b b c + qk 1 ?a b c * qr 1 ?b b c"
    by blast
  from f have "qr 1 q 0 0 = qr 1 ?a 0 0 * qr 1 ?b 0 0 - qi 1 ?a 0 0 * qi 1 ?b 0 0
                           - qj 1 ?a 0 0 * qj 1 ?b 0 0 - qk 1 ?a 0 0 * qk 1 ?b 0 0 \<and>
              qi 1 q 0 0 = qr 1 ?a 0 0 * qi 1 ?b 0 0 + qi 1 ?a 0 0 * qr 1 ?b 0 0
                           + qj 1 ?a 0 0 * qk 1 ?b 0 0 - qk 1 ?a 0 0 * qj 1 ?b 0 0 \<and>
              qj 1 q 0 0 = qr 1 ?a 0 0 * qj 1 ?b 0 0 - qi 1 ?a 0 0 * qk 1 ?b 0 0
                           + qj 1 ?a 0 0 * qr 1 ?b 0 0 + qk 1 ?a 0 0 * qi 1 ?b 0 0 \<and>
              qk 1 q 0 0 = qr 1 ?a 0 0 * qk 1 ?b 0 0 + qi 1 ?a 0 0 * qj 1 ?b 0 0
                           - qj 1 ?a 0 0 * qi 1 ?b 0 0 + qk 1 ?a 0 0 * qr 1 ?b 0 0"
    by simp
  then have "qr 1 q 0 0 = 2 * 11 - 3 * 13 - 5 * 17 - 7 * 19 \<and>
        qi 1 q 0 0 = 2 * 13 + 3 * 11 + 5 * 19 - 7 * 17 \<and>
        qj 1 q 0 0 = 2 * 17 - 3 * 19 + 5 * 11 + 7 * 13 \<and>
        qk 1 q 0 0 = 2 * 19 + 3 * 17 - 5 * 13 + 7 * 11"
    unfolding v by simp
  with q wa wb show ?thesis by blast
qed


lemma identity_row_nth:
  assumes "c < H"
  shows "identity_row H ! c = (1 :: 'a::{zero,one})"
    and "identity_row H ! (H + c) = (0 :: 'a::{zero,one})"
    and "identity_row H ! (2 * H + c) = (0 :: 'a::{zero,one})"
    and "identity_row H ! (3 * H + c) = (0 :: 'a::{zero,one})"
  using assms by (simp_all add: identity_row_def nth_append)

lemma length_identity_row [simp]: "length (identity_row H) = 4 * H"
  by (simp add: identity_row_def)

lemma identity_quaternion_tab:
  "identity_quaternion B H = tab [B] (4 * H) (\<lambda>x. identity_row H)"
  by (simp add: identity_quaternion_def tab_def of_rows_def map_replicate_const)

lemma ham_row_identity:
  fixes a :: "'a::ring_1 list"
  assumes la: "length a = 4 * H"
  shows "ham_row H a (identity_row H) = a"
proof (rule nth_equalityI)
  show "length (ham_row H a (identity_row H)) = length a"
    using la by (simp add: length_ham_row)
next
  fix n assume "n < length (ham_row H a (identity_row H))"
  then have n: "n < 4 * H" using la by (simp add: length_ham_row)
  note h = ham_row_nth [OF la length_identity_row]
  consider (r) "n < H" | (i) "H \<le> n" "n < 2 * H" | (j) "2 * H \<le> n" "n < 3 * H"
    | (k) "3 * H \<le> n"
    by linarith
  then show "ham_row H a (identity_row H) ! n = a ! n"
  proof cases
    case r
    then show ?thesis using h(1) [OF r] identity_row_nth [OF r, where ?'a = 'a] by simp
  next
    case i
    then have c: "n - H < H" and e: "n = H + (n - H)" by simp_all
    show ?thesis
      using h(2) [OF c] identity_row_nth [OF c, where ?'a = 'a] e by simp
  next
    case j
    then have c: "n - 2 * H < H" and e: "n = 2 * H + (n - 2 * H)" by simp_all
    show ?thesis
      using h(3) [OF c] identity_row_nth [OF c, where ?'a = 'a] e by simp
  next
    case k
    then have c: "n - 3 * H < H" and e: "n = 3 * H + (n - 3 * H)" using n by simp_all
    show ?thesis
      using h(4) [OF c] identity_row_nth [OF c, where ?'a = 'a] e by simp
  qed
qed

text \<open>
  In exact arithmetic (scalars in a ring) the identity quaternion tensor is a right unit
  of the Hamilton product.
\<close>

lemma hamilton_product_identity_ring:
  fixes q :: "'a::ring_1 tensor"
  assumes wf: "well_formed q" and sh: "shape q = [B, 4 * H]"
  shows "hamilton_product q (identity_quaternion B H) = Inr q"
proof -
  define f where "f x = rows q ! x" for x
  have t: "q = tab [B] (4 * H) f" and lf: "\<And>x. x < B \<Longrightarrow> length (f x) = 4 * H"
    unfolding f_def using rank2_tab [OF wf sh] by simp_all
  have "hamilton_product (tab [B] (4 * H) f) (tab [B] (4 * H) (\<lambda>x. identity_row H))
        = Inr (tab [B] (4 * H) (\<lambda>x. ham_row H (f x) (identity_row H)))"
    by (rule hamilton_tab) (simp_all add: lf)
  moreover have "tab [B] (4 * H) (\<lambda>x. ham_row H (f x) (identity_row H)) = tab [B] (4 * H) f"
    by (rule tab_cong) (simp add: ham_row_identity lf)
  ultimately show ?thesis
    using t by (simp add: identity_quaternion_tab)
qed







section \<open>Modulus and normalisation\<close>

lemma nth_concat_uniform:
  "list_all (\<lambda>r. length r = n) rs \<Longrightarrow> i < length rs \<Longrightarrow> c < n
     \<Longrightarrow> concat rs ! (i * n + c) = rs ! i ! c"
proof (induction rs arbitrary: i)
  case Nil
  then show ?case by simp
next
  case (Cons r rs)
  show ?case
  proof (cases i)
    case 0
    then show ?thesis using Cons.prems by (simp add: nth_append)
  next
    case (Suc i')
    then have "concat rs ! (i' * n + c) = rs ! i' ! c"
      using Cons.prems by (intro Cons.IH) simp_all
    then show ?thesis using Cons.prems Suc by (simp add: nth_append)
  qed
qed

lemma data_tab_nth:
  assumes "\<And>x. x < prod_list pre \<Longrightarrow> length (f x) = n" and "i < prod_list pre" and "c < n"
  shows "data (tab pre n f) ! (i * n + c) = f i ! c"
proof -
  have "list_all (\<lambda>r. length r = n) (map f [0..<prod_list pre])"
    using assms(1) by (simp add: list_all_iff)
  then have "concat (map f [0..<prod_list pre]) ! (i * n + c) = map f [0..<prod_list pre] ! i ! c"
    using assms(2,3) by (intro nth_concat_uniform) simp_all
  then show ?thesis using assms(2) by (simp add: tab_def)
qed

lemma sum_dim0_tab2:
  fixes f :: "nat \<Rightarrow> 'a::monoid_add list"
  assumes "\<And>x. x < B \<Longrightarrow> length (f x) = n"
  shows "sum_dim0 (tab [B] n f) =
           \<lparr>shape = [n], data = map (\<lambda>c. sum_list (map (\<lambda>i. f i ! c) [0..<B])) [0..<n]\<rparr>"
proof -
  have "map (\<lambda>c. sum_list (map (\<lambda>i. data (tab [B] n f) ! (i * n + c)) [0..<B])) [0..<n]
        = map (\<lambda>c. sum_list (map (\<lambda>i. f i ! c) [0..<B])) [0..<n]"
  proof (rule map_upt_cong)
    fix c assume c: "c < n"
    have "map (\<lambda>i. data (tab [B] n f) ! (i * n + c)) [0..<B] = map (\<lambda>i. f i ! c) [0..<B]"
      by (rule map_upt_cong) (rule data_tab_nth, simp_all add: assms c)
    then show "sum_list (map (\<lambda>i. data (tab [B] n f) ! (i * n + c)) [0..<B])
               = sum_list (map (\<lambda>i. f i ! c) [0..<B])"
      by (rule arg_cong)
  qed
  then show ?thesis
    by (simp add: sum_dim0_def)
qed

lemma length_square_sum: "length v = 4 * H \<Longrightarrow> length (square_sum H v) = H"
  by (simp add: square_sum_def)

lemma square_sum_nth:
  assumes "length v = 4 * H" and "c < H"
  shows "square_sum H v ! c =
           v ! c * v ! c + v ! (H + c) * v ! (H + c)
             + v ! (2 * H + c) * v ! (2 * H + c) + v ! (3 * H + c) * v ! (3 * H + c)"
  using assms by (simp add: square_sum_def)

lemma square_sum_tab:
  fixes f :: "nat \<Rightarrow> real list"
  assumes lf: "\<And>x. x < B \<Longrightarrow> length (f x) = 4 * H"
  shows "bnd (get_r (tab [B] (4 * H) f)) (\<lambda>r.
         bnd (get_i (tab [B] (4 * H) f)) (\<lambda>i.
         bnd (get_j (tab [B] (4 * H) f)) (\<lambda>j.
         bnd (get_k (tab [B] (4 * H) f)) (\<lambda>k.
         bnd (tmul r r) (\<lambda>rr.
         bnd (tmul i i) (\<lambda>ii.
         bnd (tadd rr ii) (\<lambda>s1.
         bnd (tmul j j) (\<lambda>jj.
         bnd (tadd s1 jj) (\<lambda>s2.
         bnd (tmul k k) (\<lambda>kk.
         bnd (tadd s2 kk) K))))))))))
         = K (tab [B] H (\<lambda>x. square_sum H (f x)))"
proof -
  have s: "length (take H (drop 0 (f x))) = H" "length (take H (drop H (f x))) = H"
    "length (take H (drop (2 * H) (f x))) = H" "length (take H (drop (3 * H) (f x))) = H"
    if "x < B" for x
    using lf [OF that] by simp_all
  have sq: "tmul (tab [B] H u) (tab [B] H u) = Inr (tab [B] H (\<lambda>x. map2 (*) (u x) (u x)))"
    if "\<And>x. x < B \<Longrightarrow> length (u x) = H" for u :: "nat \<Rightarrow> real list"
    unfolding tmul_def by (rule tbin2) (rule that; assumption)+
  have ad: "tadd (tab [B] H u) (tab [B] H w) = Inr (tab [B] H (\<lambda>x. map2 (+) (u x) (w x)))"
    if "\<And>x. x < B \<Longrightarrow> length (u x) = H" "\<And>x. x < B \<Longrightarrow> length (w x) = H"
    for u w :: "nat \<Rightarrow> real list"
    unfolding tadd_def by (rule tbin2) (rule that; assumption)+
  have q0: "tmul (tab [B] H (\<lambda>x. take H (drop 0 (f x)))) (tab [B] H (\<lambda>x. take H (drop 0 (f x))))
       = Inr (tab [B] H (\<lambda>x. map2 (*) (take H (drop 0 (f x))) (take H (drop 0 (f x)))))"
    by (rule sq) (rule s)
  have q1: "tmul (tab [B] H (\<lambda>x. take H (drop H (f x)))) (tab [B] H (\<lambda>x. take H (drop H (f x))))
       = Inr (tab [B] H (\<lambda>x. map2 (*) (take H (drop H (f x))) (take H (drop H (f x)))))"
    by (rule sq) (rule s)
  have q2: "tmul (tab [B] H (\<lambda>x. take H (drop (2 * H) (f x)))) (tab [B] H (\<lambda>x. take H (drop (2 * H) (f x))))
       = Inr (tab [B] H (\<lambda>x. map2 (*) (take H (drop (2 * H) (f x))) (take H (drop (2 * H) (f x)))))"
    by (rule sq) (rule s)
  have q3: "tmul (tab [B] H (\<lambda>x. take H (drop (3 * H) (f x)))) (tab [B] H (\<lambda>x. take H (drop (3 * H) (f x))))
       = Inr (tab [B] H (\<lambda>x. map2 (*) (take H (drop (3 * H) (f x))) (take H (drop (3 * H) (f x)))))"
    by (rule sq) (rule s)
  have a1: "tadd (tab [B] H (\<lambda>x. map2 (*) (take H (drop 0 (f x))) (take H (drop 0 (f x)))))
                 (tab [B] H (\<lambda>x. map2 (*) (take H (drop H (f x))) (take H (drop H (f x)))))
       = Inr (tab [B] H (\<lambda>x. map2 (+) (map2 (*) (take H (drop 0 (f x))) (take H (drop 0 (f x))))
                                      (map2 (*) (take H (drop H (f x))) (take H (drop H (f x))))))"
    by (rule ad) (simp_all add: lf)
  have a2: "tadd (tab [B] H (\<lambda>x. map2 (+) (map2 (*) (take H (drop 0 (f x))) (take H (drop 0 (f x))))
                                      (map2 (*) (take H (drop H (f x))) (take H (drop H (f x))))))
                 (tab [B] H (\<lambda>x. map2 (*) (take H (drop (2 * H) (f x))) (take H (drop (2 * H) (f x)))))
       = Inr (tab [B] H (\<lambda>x. map2 (+) (map2 (+) (map2 (*) (take H (drop 0 (f x))) (take H (drop 0 (f x))))
                                      (map2 (*) (take H (drop H (f x))) (take H (drop H (f x)))))
                     (map2 (*) (take H (drop (2 * H) (f x))) (take H (drop (2 * H) (f x))))))"
    by (rule ad) (simp_all add: lf)
  have a3: "tadd (tab [B] H (\<lambda>x. map2 (+) (map2 (+) (map2 (*) (take H (drop 0 (f x))) (take H (drop 0 (f x))))
                                      (map2 (*) (take H (drop H (f x))) (take H (drop H (f x)))))
                     (map2 (*) (take H (drop (2 * H) (f x))) (take H (drop (2 * H) (f x))))))
                 (tab [B] H (\<lambda>x. map2 (*) (take H (drop (3 * H) (f x))) (take H (drop (3 * H) (f x)))))
       = Inr (tab [B] H (\<lambda>x. square_sum H (f x)))"
    unfolding square_sum_def by (rule ad) (simp_all add: lf)
  show ?thesis
    by (simp only: get2 [of B f H, OF lf] bnd_Inr q0 q1 q2 q3 a1 a2 a3)
qed

lemma get_modulus_tab:
  fixes f :: "nat \<Rightarrow> real list"
  assumes lf: "\<And>x. x < B \<Longrightarrow> length (f x) = 4 * H"
  shows "get_modulus (tab [B] (4 * H) f) False =
           Inr \<lparr>shape = [H],
                data = map (\<lambda>c. sqrt (sum_list (map (\<lambda>i. square_sum H (f i) ! c) [0..<B]))) [0..<H]\<rparr>"
    and "get_modulus (tab [B] (4 * H) f) True =
           Inr (tsqrt (tab [B] H (\<lambda>x. square_sum H (f x))))"
proof -
  have c: "check_input (tab [B] (4 * H) f) = Inr ()"
    by (simp add: check_input_def dim_def)
  have l: "length (square_sum H (f x)) = H" if "x < B" for x
    using lf [OF that] by (rule length_square_sum)
  show "get_modulus (tab [B] (4 * H) f) True =
           Inr (tsqrt (tab [B] H (\<lambda>x. square_sum H (f x))))"
    by (simp only: get_modulus_def c bnd_Inr square_sum_tab [of B f H, OF lf] if_True)
  show "get_modulus (tab [B] (4 * H) f) False =
           Inr \<lparr>shape = [H],
                data = map (\<lambda>c. sqrt (sum_list (map (\<lambda>i. square_sum H (f i) ! c) [0..<B]))) [0..<H]\<rparr>"
    by (simp only: get_modulus_def c bnd_Inr square_sum_tab [of B f H, OF lf] if_False)
      (simp add: sum_dim0_tab2 [of B _ H, OF l] tsqrt_def comp_def)
qed


lemma concat_singletons: "length xs = n \<Longrightarrow> concat (map (\<lambda>b. take (Suc 0) (drop b xs)) [0..<n]) = xs"
  using concat_chunks [of xs n 1] by (simp add: chunks_def)

lemma repeat_data_row4:
  assumes "length d = H"
  shows "repeat_data [1, H] [1, 4] d = d @ d @ d @ d"
proof -
  have "replicate 4 d = [d, d, d, d]" by (simp add: numeral_eq_Suc)
  then show ?thesis using assms by (simp add: concat_singletons)
qed

lemma repeat_row4:
  assumes "length d = H"
  shows "repeat \<lparr>shape = [H], data = d\<rparr> [1, 4] = Inr \<lparr>shape = [1, H * 4], data = d @ d @ d @ d\<rparr>"
  using repeat_data_row4 [OF assms] by (simp add: repeat_def dim_def pad_shape_def)

lemma expand_data_rows:
  assumes "length dd = n"
  shows "expand_data [1, n] [B, n] dd = concat (replicate B dd)"
proof (cases "B = 1")
  case True
  have "expand_data [1, n] [1, n] dd = dd"
    by (rule expand_data_same) (simp add: assms)
  then show ?thesis unfolding True by simp
next
  case False
  have "expand_data [n] [n] xs = xs" if "length xs = n" for xs :: "'a list"
    by (rule expand_data_same) (simp add: that)
  then have "expand_data [n] [n] (take n dd) = dd"
    using assms by simp
  then show ?thesis using False assms by simp
qed

lemma expand_row:
  assumes "length dd = 4 * H"
  shows "expand \<lparr>shape = [1, H * 4], data = dd\<rparr> [B, 4 * H]
           = Inr \<lparr>shape = [B, 4 * H], data = concat (replicate B dd)\<rparr>"
proof -
  have e: "H * 4 = 4 * H" by simp
  show ?thesis
    unfolding e using expand_data_rows [OF assms, of B]
    by (simp add: expand_def pad_shape_def)
qed

lemma tab_const: "tab [B] n (\<lambda>x. row) = \<lparr>shape = [B, n], data = concat (replicate B row)\<rparr>"
  by (simp add: tab_def of_rows_def map_replicate_const)

lemma tadd_scalar_rows:
  "tadd_scalar \<lparr>shape = [B, n], data = concat (replicate B dd)\<rparr> eps
     = tab [B] n (\<lambda>x. map (\<lambda>v. v + eps) dd)"
  by (simp add: tadd_scalar_def tab_const map_concat)

lemma four_copies_nth:
  assumes l: "length d = H" and c: "c < 4 * H"
  shows "(d @ d @ d @ d) ! c = d ! (c mod H)"
proof -
  have H: "0 < H" using c by (cases H) simp_all
  define k where "k = c mod H"
  define m where "m = c div H"
  have k: "k < H" using H by (simp add: k_def)
  have "m < 4" unfolding m_def by (rule less_mult_imp_div_less) (rule c)
  then consider "m = 0" | "m = 1" | "m = 2" | "m = 3" by linarith
  then have "(d @ d @ d @ d) ! (m * H + k) = d ! k"
  proof cases
    case 1
    then show ?thesis using append4_nth(1) [OF l l l l k] by simp
  next
    case 2
    then show ?thesis using append4_nth(2) [OF l l l l k] by simp
  next
    case 3
    then show ?thesis using append4_nth(3) [OF l l l l k] by simp
  next
    case 4
    then show ?thesis using append4_nth(4) [OF l l l l k] by simp
  qed
  then show ?thesis unfolding k_def m_def by simp
qed


text \<open>
  C10. For a well-formed rank-2 tensor \<open>t\<close> of shape \<open>[B, 4 * H]\<close>, \<open>get_normalized t eps\<close>
  returns a tensor of the same shape in which the element at row \<open>b\<close> and position \<open>c\<close>
  is that of \<open>t\<close> divided by the batch-aggregated modulus at feature \<open>c mod H\<close> plus
  \<open>eps\<close>: the square root of the sum over all rows of \<open>r\<^sup>2 + i\<^sup>2 + j\<^sup>2 + k\<^sup>2\<close> at that
  feature, the same divisor in the four component segments and in every row.
\<close>

theorem get_normalized_batch:
  fixes t :: "real tensor"
  assumes wf: "well_formed t" and sh: "shape t = [B, 4 * H]"
  shows "\<exists>q. get_normalized t eps = Inr q \<and> shape q = [B, 4 * H] \<and> well_formed q \<and>
           (\<forall>b<B. \<forall>c<4 * H.
              elem q b c = elem t b c / (batch_modulus B H t (c mod H) + eps))"
proof -
  define f where "f x = rows t ! x" for x
  define d where
    "d = map (\<lambda>c. sqrt (sum_list (map (\<lambda>i. square_sum H (f i) ! c) [0..<B]))) [0..<H]"
  define dd where "dd = d @ d @ d @ d"
  define q where "q = tab [B] (4 * H) (\<lambda>x. map2 (/) (f x) (map (\<lambda>v. v + eps) dd))"
  have t: "t = tab [B] (4 * H) f" and lf: "\<And>x. x < B \<Longrightarrow> length (f x) = 4 * H"
    unfolding f_def using rank2_tab [OF wf sh] by simp_all
  have ld: "length d = H" by (simp add: d_def)
  have ldd: "length dd = 4 * H" by (simp add: dd_def ld)
  have c: "check_input t = Inr ()" using sh by (simp add: check_input_def dim_def)
  have dm: "dim t = 2" using sh by (simp add: dim_def)
  have m: "get_modulus t False = Inr \<lparr>shape = [H], data = d\<rparr>"
    unfolding d_def using get_modulus_tab(1) [of B f H, OF lf] t by simp
  have r: "repeat \<lparr>shape = [H], data = d\<rparr> [1, 4] = Inr \<lparr>shape = [1, H * 4], data = dd\<rparr>"
    unfolding dd_def using ld by (rule repeat_row4)
  have e: "expand \<lparr>shape = [1, H * 4], data = dd\<rparr> (shape t)
             = Inr \<lparr>shape = [B, 4 * H], data = concat (replicate B dd)\<rparr>"
    unfolding sh using ldd by (rule expand_row)
  have a: "tadd_scalar \<lparr>shape = [B, 4 * H], data = concat (replicate B dd)\<rparr> eps
             = tab [B] (4 * H) (\<lambda>x. map (\<lambda>v. v + eps) dd)"
    by (rule tadd_scalar_rows)
  have dv: "tdiv (tab [B] (4 * H) f) (tab [B] (4 * H) (\<lambda>x. map (\<lambda>v. v + eps) dd)) = Inr q"
    unfolding tdiv_def q_def by (rule tbin2) (simp_all add: lf ldd)
  have res: "get_normalized t eps = Inr q"
    unfolding get_normalized_def c bnd_Inr m dm
    using r e a dv t by simp
  have lq: "length (map2 (/) (f x) (map (\<lambda>v. v + eps) dd)) = 4 * H" if "x < B" for x
    using lf [OF that] ldd by simp
  have shq: "shape q = [B, 4 * H]" by (simp add: q_def)
  have wfq: "well_formed q" unfolding q_def by (rule wf_tab, rule lq) simp
  have et: "elem t b n = f b ! n" for b n
    by (simp add: elem_def f_def)
  have bm: "d ! h = batch_modulus B H t h" if h: "h < H" for h
  proof -
    have "map (\<lambda>i. square_sum H (f i) ! h) [0..<B]
          = map (\<lambda>b. qr H t b h * qr H t b h + qi H t b h * qi H t b h
                      + qj H t b h * qj H t b h + qk H t b h * qk H t b h) [0..<B]"
      by (rule map_upt_cong) (simp add: square_sum_nth [OF lf h] qr_def qi_def qj_def qk_def et)
    then have "sum_list (map (\<lambda>i. square_sum H (f i) ! h) [0..<B])
          = sum_list (map (\<lambda>b. qr H t b h * qr H t b h + qi H t b h * qi H t b h
                      + qj H t b h * qj H t b h + qk H t b h * qk H t b h) [0..<B])"
      by (rule arg_cong)
    moreover have "d ! h = sqrt (sum_list (map (\<lambda>i. square_sum H (f i) ! h) [0..<B]))"
      using h by (simp add: d_def)
    ultimately show ?thesis by (simp only: batch_modulus_def)
  qed
  have "elem q b n = elem t b n / (batch_modulus B H t (n mod H) + eps)"
    if b: "b < B" and n: "n < 4 * H" for b n
  proof -
    have H: "0 < H" using n by (cases H) simp_all
    have "elem q b n = map2 (/) (f b) (map (\<lambda>v. v + eps) dd) ! n"
      unfolding q_def using b by (intro elem_tab) (simp_all add: lf ldd)
    also have "\<dots> = f b ! n / (dd ! n + eps)"
      using lf [OF b] ldd n by simp
    also have "dd ! n = d ! (n mod H)"
      unfolding dd_def using ld n by (rule four_copies_nth)
    also have "d ! (n mod H) = batch_modulus B H t (n mod H)"
      using H by (intro bm) simp
    finally show ?thesis by (simp add: et)
  qed
  then show ?thesis using res shq wfq by blast
qed

theorem get_normalized_batch_witness:
  "well_formed \<lparr>shape = [2, 4], data = [3, 0, 0, 0, 4, 0, 0, 0 :: real]\<rparr> \<and>
   (\<exists>q. get_normalized \<lparr>shape = [2, 4], data = [3, 0, 0, 0, 4, 0, 0, 0 :: real]\<rparr> 0 = Inr q \<and>
        elem q 0 0 = 3 / 5 \<and> elem q 1 0 = 4 / 5)"
proof -
  let ?t = "\<lparr>shape = [2, 4], data = [3, 0, 0, 0, 4, 0, 0, 0 :: real]\<rparr>"
  have wf: "well_formed ?t" by (simp add: well_formed_def)
  have sh: "shape ?t = [2, 4 * 1]" by simp
  have r: "rows ?t = [[3, 0, 0, 0], [4, 0, 0, 0]]"
    by (simp add: rows_def chunks_def numeral_2_eq_2)
  have s: "sqrt 25 = 5" using real_sqrt_abs [of 5] by simp
  have "[0..<2] = [0, 1]" by (simp add: numeral_2_eq_2)
  then have bm: "batch_modulus 2 1 ?t 0 = 5"
    by (simp add: batch_modulus_def qr_def qi_def qj_def qk_def elem_def r s)
  have e: "elem ?t 0 0 = 3" "elem ?t 1 0 = 4" by (simp_all add: elem_def r)
  from get_normalized_batch [OF wf sh, of 0]
  obtain q where q: "get_normalized ?t 0 = Inr q"
    and f: "\<forall>b<2. \<forall>c<4 * 1. elem q b c = elem ?t b c / (batch_modulus 2 1 ?t (c mod 1) + 0)"
    by blast
  from f have "elem q 0 0 = elem ?t 0 0 / (batch_modulus 2 1 ?t 0 + 0)"
    "elem q 1 0 = elem ?t 1 0 / (batch_modulus 2 1 ?t 0 + 0)"
    by simp_all
  then have "elem q 0 0 = 3 / 5" "elem q 1 0 = 4 / 5"
    unfolding bm e by simp_all
  with q wf show ?thesis by blast
qed

section \<open>The forward pass\<close>

lemma tneg_of_rows: "tneg (of_rows pre n A) = of_rows pre n (neg_rows A)"
  by (simp add: tneg_def of_rows_def neg_rows_def map_concat)

lemma rows_ok_neg: "rows_ok pre n A \<Longrightarrow> rows_ok pre n (neg_rows A)"
  by (simp add: rows_ok_def neg_rows_def list_all_iff)

lemma rows_ok_vcat4:
  assumes "rows_ok [F] G A" "rows_ok [F] G B" "rows_ok [F] G C" "rows_ok [F] G D"
  shows "rows_ok [4 * F] G (vcat4 A B C D)"
  using assms by (simp add: rows_ok_def vcat4_def)

lemma length_concat_rows: "rows_ok [F] G A \<Longrightarrow> length (concat A) = F * G"
  using length_concat_uniform [of G A] by (simp add: rows_ok_def)

lemma cat0_rows:
  assumes "rows_ok [F] G A" "rows_ok [F] G B" "rows_ok [F] G C" "rows_ok [F] G D"
  shows "cat [of_rows [F] G A, of_rows [F] G B, of_rows [F] G C, of_rows [F] G D] 0
           = Inr (of_rows [4 * F] G (vcat4 A B C D))"
  using assms [THEN length_concat_rows]
  by (simp add: cat_def of_rows_def vcat4_def)

lemma rows_ok_hcat4:
  assumes "rows_ok [M] G A" "rows_ok [M] G B" "rows_ok [M] G C" "rows_ok [M] G D"
  shows "rows_ok [M] (4 * G) (hcat4 A B C D)"
proof (rule rows_okI)
  show "length (hcat4 A B C D) = prod_list [M]"
    using assms(1) by (simp add: hcat4_def rows_ok_def)
next
  fix x assume "x < prod_list [M]"
  then show "length (hcat4 A B C D ! x) = 4 * G"
    using assms [THEN rows_okD(1)] assms [THEN rows_okD(2), of x]
    by (simp add: hcat4_def)
qed

lemma cat1_rows:
  assumes "rows_ok [M] G A" "rows_ok [M] G B" "rows_ok [M] G C" "rows_ok [M] G D"
  shows "cat [of_rows [M] G A, of_rows [M] G B, of_rows [M] G C, of_rows [M] G D] 1
           = Inr (of_rows [M] (4 * G) (hcat4 A B C D))"
proof -
  have e: "G + G + G + G = 4 * G" by simp
  have l: "length A = M" using assms(1) by (simp add: rows_ok_def)
  show ?thesis
    using cat_rows [OF assms] unfolding e by (simp add: hcat4_def l)
qed

lemma kernel_rows:
  fixes R I J K :: "'a::uminus list list"
  assumes r: "rows_ok [F] G R" and i: "rows_ok [F] G I"
    and j: "rows_ok [F] G J" and k: "rows_ok [F] G K"
  shows "cat_kernels_4_quaternion (of_rows [F] G R) (of_rows [F] G I)
             (of_rows [F] G J) (of_rows [F] G K)
           = Inr (of_rows [4 * F] (4 * G) (encoding R I J K))"
    and "rows_ok [4 * F] (4 * G) (encoding R I J K)"
proof -
  note ni = rows_ok_neg [OF i] and nj = rows_ok_neg [OF j] and nk = rows_ok_neg [OF k]
  note v1 = rows_ok_vcat4 [OF r ni nj nk] and v2 = rows_ok_vcat4 [OF i r nk j]
    and v3 = rows_ok_vcat4 [OF j k r ni] and v4 = rows_ok_vcat4 [OF k nj i r]
  show "cat_kernels_4_quaternion (of_rows [F] G R) (of_rows [F] G I)
             (of_rows [F] G J) (of_rows [F] G K)
           = Inr (of_rows [4 * F] (4 * G) (encoding R I J K))"
    unfolding cat_kernels_4_quaternion_def encoding_def
    by (simp only: tneg_of_rows cat0_rows [OF r ni nj nk] cat0_rows [OF i r nk j]
        cat0_rows [OF j k r ni] cat0_rows [OF k nj i r] bnd_Inr cat1_rows [OF v1 v2 v3 v4])
  show "rows_ok [4 * F] (4 * G) (encoding R I J K)"
    unfolding encoding_def by (rule rows_ok_hcat4 [OF v1 v2 v3 v4])
qed


lemma length_affine_row [simp]: "length (affine_row m p E bias row) = p"
  by (simp add: affine_row_def)

lemma row_times_rows:
  fixes E :: "'a::semiring_0 list list"
  assumes ok: "rows_ok [m] p E"
  shows "row_times m p (concat E) row = affine_row m p E None row"
  unfolding row_times_def affine_row_def option.case
proof (rule map_upt_cong)
  fix c assume c: "c < p"
  have all: "list_all (\<lambda>r. length r = p) E" and len: "length E = m"
    using ok by (simp_all add: rows_ok_def)
  have "map (\<lambda>k. row ! k * concat E ! (k * p + c)) [0..<m] = map (\<lambda>k. row ! k * E ! k ! c) [0..<m]"
    by (rule map_upt_cong) (simp add: nth_concat_uniform [OF all _ c] len)
  then show "sum_list (map (\<lambda>k. row ! k * concat E ! (k * p + c)) [0..<m])
             = sum_list (map (\<lambda>k. row ! k * E ! k ! c) [0..<m])"
    by (rule arg_cong)
qed

lemma row_times_rows_fun:
  fixes E :: "'a::semiring_0 list list"
  assumes ok: "rows_ok [m] p E"
  shows "row_times m p (concat E) = affine_row m p E None"
  by (rule ext) (rule row_times_rows [OF ok])

lemma mm_rows:
  fixes E :: "'a::semiring_0 list list"
  assumes "shape x = [B, m]" and ok: "rows_ok [m] p E"
  shows "mm x (of_rows [m] p E) = Inr (affine x m p E None)"
  using assms(1) by (simp add: mm_def dim_def affine_def row_times_rows_fun [OF ok])

lemma matmul_rows:
  fixes E :: "'a::semiring_0 list list"
  assumes "2 \<le> dim x" and "last (shape x) = m" and ok: "rows_ok [m] p E"
  shows "matmul x (of_rows [m] p E) = Inr (affine x m p E None)"
  using assms(1,2) by (simp add: matmul_def dim_def affine_def row_times_rows_fun [OF ok])

lemma concat_replicate_mult:
  "concat (replicate B (concat (replicate S xs))) = concat (replicate (B * S) xs)"
  by (induction B) (simp_all add: replicate_add)

lemma expand_data_bias3:
  assumes "length bd = p"
  shows "expand_data [1, 1, p] [B, S, p] bd = concat (replicate (B * S) bd)"
proof -
  have inner: "expand_data [1, p] [S, p] (take p bd) = concat (replicate S bd)"
    using expand_data_rows [OF assms, of S] assms by simp
  show ?thesis
  proof (cases "B = 1")
    case True
    have "expand_data [1, 1, p] [1, S, p] bd = expand_data [1, p] [S, p] (take p bd)"
      by (subst expand_data.simps(1)) (simp del: expand_data.simps)
    then show ?thesis unfolding True inner by simp
  next
    case False
    then have "expand_data [1, 1, p] [B, S, p] bd
               = concat (replicate B (expand_data [1, p] [S, p] (take p bd)))"
      by (subst expand_data.simps(1)) (simp del: expand_data.simps)
    then show ?thesis unfolding inner by (simp add: concat_replicate_mult)
  qed
qed

lemma map2_bias_right:
  fixes g :: "'b \<Rightarrow> 'a::plus list"
  assumes "\<And>r. length (g r) = length bd"
  shows "map2 (+) (concat (map g rs)) (concat (replicate (length rs) bd))
           = concat (map (\<lambda>r. map2 (+) (g r) bd) rs)"
  using assms by (induction rs) simp_all

lemma map2_bias_left:
  fixes g :: "'b \<Rightarrow> 'a::plus list"
  assumes "\<And>r. length (g r) = length bd"
  shows "map2 (+) (concat (replicate (length rs) bd)) (concat (map g rs))
           = concat (map (\<lambda>r. map2 (+) bd (g r)) rs)"
  using assms by (induction rs) simp_all

lemma affine_row_bias:
  fixes E :: "'a::semiring_0 list list"
  assumes "length bd = p"
  shows "map2 (+) (affine_row m p E None row) bd = affine_row m p E (Some bd) row"
    and "map2 (+) bd (affine_row m p E None row) = affine_row m p E (Some bd) row"
  using assms by (auto intro!: nth_equalityI simp: affine_row_def add.commute)

lemma length_rows_shape:
  "dim x = 2 \<or> dim x = 3 \<Longrightarrow> length (rows x) = prod_list (butlast (shape x))"
  by (simp add: rows_def)

lemma length_affine_data:
  "length (concat (map (affine_row m p E bias) rs)) = length rs * p"
  by (induction rs) simp_all


lemma weight_rows:
  assumes "well_formed w" and "shape w = [F, G]"
  shows "(w :: 'a tensor) = of_rows [F] G (rows w)" and "rows_ok [F] G (rows w)"
proof -
  have sh: "shape w = [F] @ [G]" using assms(2) by simp
  show "w = of_rows [F] G (rows w)" using assms(1) sh by (rule of_rows_rows)
  show "rows_ok [F] G (rows w)" using assms(1) sh by (rule rows_ok_rows)
qed

lemma kernel_weights:
  fixes r i j k :: "'a::uminus tensor"
  assumes "well_formed r" "shape r = [F, G]" "well_formed i" "shape i = [F, G]"
    "well_formed j" "shape j = [F, G]" "well_formed k" "shape k = [F, G]"
  shows "cat_kernels_4_quaternion r i j k
           = Inr (of_rows [4 * F] (4 * G) (encoding (rows r) (rows i) (rows j) (rows k)))"
    and "rows_ok [4 * F] (4 * G) (encoding (rows r) (rows i) (rows j) (rows k))"
proof -
  note r = weight_rows [OF assms(1,2)] and i = weight_rows [OF assms(3,4)]
    and j = weight_rows [OF assms(5,6)] and k = weight_rows [OF assms(7,8)]
  show "cat_kernels_4_quaternion r i j k
           = Inr (of_rows [4 * F] (4 * G) (encoding (rows r) (rows i) (rows j) (rows k)))"
    using kernel_rows(1) [OF r(2) i(2) j(2) k(2)] r(1) i(1) j(1) k(1) by simp
  show "rows_ok [4 * F] (4 * G) (encoding (rows r) (rows i) (rows j) (rows k))"
    by (rule kernel_rows(2) [OF r(2) i(2) j(2) k(2)])
qed

lemma expand_bias2:
  assumes "length bd = p"
  shows "expand \<lparr>shape = [p], data = bd\<rparr> [B, p]
           = Inr \<lparr>shape = [B, p], data = concat (replicate B bd)\<rparr>"
  using expand_data_rows [OF assms, of B] by (simp add: expand_def pad_shape_def)

lemma addmm_rows:
  fixes E :: "'a::ring list list"
  assumes sh: "shape x = [B, m]" and ok: "rows_ok [m] p E"
    and wb: "well_formed b" and sb: "shape b = [p]"
  shows "addmm b x (of_rows [m] p E) = Inr (affine x m p E (Some (data b)))"
proof -
  have lb: "length (data b) = p" using wb sb by (simp add: well_formed_def)
  have b: "b = \<lparr>shape = [p], data = data b\<rparr>" using sb by simp
  have lr: "length (rows x) = B" using sh by (simp add: rows_def)
  have ex: "expand b (shape (affine x m p E None))
              = Inr \<lparr>shape = [B, p], data = concat (replicate B (data b))\<rparr>"
    using expand_bias2 [OF lb, of B] b sh by (simp add: affine_def)
  have w1: "well_formed \<lparr>shape = [B, p], data = concat (replicate B (data b))\<rparr>"
    using lb by (simp add: well_formed_def length_concat sum_list_replicate)
  have w2: "well_formed (affine x m p E None)"
    using sh lr by (simp add: well_formed_def affine_def length_affine_data)
  have "tadd \<lparr>shape = [B, p], data = concat (replicate B (data b))\<rparr> (affine x m p E None)
          = Inr \<lparr>shape = [B, p],
                 data = map2 (+) (concat (replicate B (data b)))
                                 (concat (map (affine_row m p E None) (rows x)))\<rparr>"
    unfolding tadd_def using tbin_same_shape [OF w1 w2, of "[B, p]" "(+)"] sh
    by (simp add: affine_def)
  also have "map2 (+) (concat (replicate B (data b))) (concat (map (affine_row m p E None) (rows x)))
             = concat (map (affine_row m p E (Some (data b))) (rows x))"
    using map2_bias_left [of "affine_row m p E None" "data b" "rows x"] lb lr
    by (simp add: affine_row_bias(2) [OF lb])
  finally show ?thesis
    unfolding addmm_def mm_rows [OF sh ok] bnd_Inr ex using sh by (simp add: affine_def)
qed

lemma matmul_bias_rows:
  fixes E :: "'a::ring list list"
  assumes sh: "shape x = [B, S, m]" and ok: "rows_ok [m] p E"
    and wb: "well_formed b" and sb: "shape b = [p]"
  shows "bnd (matmul x (of_rows [m] p E)) (\<lambda>output. tadd output b)
           = Inr (affine x m p E (Some (data b)))"
proof -
  have lb: "length (data b) = p" using wb sb by (simp add: well_formed_def)
  have lr: "length (rows x) = B * S" using sh by (simp add: rows_def)
  have mt: "matmul x (of_rows [m] p E) = Inr (affine x m p E None)"
    by (rule matmul_rows) (simp_all add: sh ok dim_def)
  have sa: "shape (affine x m p E None) = [B, S, p]" using sh by (simp add: affine_def)
  have la: "length (data (affine x m p E None)) = prod_list [B, S, p]"
    using lr by (simp add: affine_def length_affine_data)
  have bs: "broadcast_shape [B, S, p] [p] = Some [B, S, p]"
    by (simp add: broadcast_shape_def)
  have e1: "expand_data [B, S, p] [B, S, p] (data (affine x m p E None)) = data (affine x m p E None)"
    using la by (rule expand_data_same)
  have e2: "expand_data [1, 1, p] [B, S, p] (data b) = concat (replicate (B * S) (data b))"
    using lb by (rule expand_data_bias3)
  have "tadd (affine x m p E None) b
          = Inr \<lparr>shape = [B, S, p],
                 data = map2 (+) (concat (map (affine_row m p E None) (rows x)))
                                 (concat (replicate (B * S) (data b)))\<rparr>"
    unfolding tadd_def tbin_def sa sb bs option.case
    using e1 e2 by (simp add: pad_shape_def) (simp add: affine_def)
  also have "map2 (+) (concat (map (affine_row m p E None) (rows x)))
                      (concat (replicate (B * S) (data b)))
             = concat (map (affine_row m p E (Some (data b))) (rows x))"
    using map2_bias_right [of "affine_row m p E None" "data b" "rows x"] lb lr
    by (simp add: affine_row_bias(1) [OF lb])
  finally show ?thesis
    unfolding mt bnd_Inr using sh by (simp add: affine_def)
qed


text \<open>
  C1, as amended. For a well-formed input of rank 2 or 3 whose last axis has length
  \<open>4 * F\<close>, four well-formed weight blocks of shape \<open>[F, G]\<close> and an optional well-formed
  bias of length \<open>4 * G\<close>, \<open>forward\<close> returns every row of the input times the block
  matrix \<open>encoding\<close>, plus the bias: the matrix in which each of the four lists of
  blocks is stacked vertically and the four stacks stand side by side.
\<close>

theorem forward_affine:
  fixes input :: "'a::ring tensor"
  assumes wfx: "well_formed input" and rank: "dim input = 2 \<or> dim input = 3"
    and last: "last (shape input) = 4 * F"
    and r: "well_formed r_weight" "shape r_weight = [F, G]"
    and i: "well_formed i_weight" "shape i_weight = [F, G]"
    and j: "well_formed j_weight" "shape j_weight = [F, G]"
    and k: "well_formed k_weight" "shape k_weight = [F, G]"
    and b: "case bias of None \<Rightarrow> True | Some b \<Rightarrow> well_formed b \<and> shape b = [4 * G]"
  shows "forward input r_weight i_weight j_weight k_weight bias =
           Inr (affine input (4 * F) (4 * G)
                  (encoding (rows r_weight) (rows i_weight) (rows j_weight) (rows k_weight))
                  (map_option data bias))"
proof -
  let ?E = "encoding (rows r_weight) (rows i_weight) (rows j_weight) (rows k_weight)"
  note kn = kernel_weights [OF r i j k]
  have c: "check_input input = Inr ()"
    using rank last by (rule check_input_ok)
  show ?thesis
  proof (cases "dim input = 2")
    case True
    then obtain B where sh: "shape input = [B, 4 * F]"
      using last by (cases "shape input" rule: rev_cases)
        (auto simp: dim_def length_Suc_conv numeral_2_eq_2 numeral_3_eq_3)
    show ?thesis
    proof (cases bias)
      case None
      then show ?thesis
        unfolding forward_def c kn(1) bnd_Inr using True mm_rows [OF sh kn(2)] by simp
    next
      case (Some bt)
      then have "well_formed bt" "shape bt = [4 * G]" using b by simp_all
      from addmm_rows [OF sh kn(2) this] show ?thesis
        unfolding forward_def c kn(1) bnd_Inr using True Some by simp
    qed
  next
    case False
    then have d3: "dim input = 3" using rank by simp
    then obtain B S where sh: "shape input = [B, S, 4 * F]"
      using last by (cases "shape input" rule: rev_cases)
        (auto simp: dim_def length_Suc_conv numeral_2_eq_2 numeral_3_eq_3)
    show ?thesis
    proof (cases bias)
      case None
      have "matmul input (of_rows [4 * F] (4 * G) ?E) = Inr (affine input (4 * F) (4 * G) ?E None)"
        by (rule matmul_rows) (simp_all add: d3 last kn(2))
      then show ?thesis
        unfolding forward_def c kn(1) bnd_Inr using False None by simp
    next
      case (Some bt)
      then have "well_formed bt" "shape bt = [4 * G]" using b by simp_all
      from matmul_bias_rows [OF sh kn(2) this] show ?thesis
        unfolding forward_def c kn(1) bnd_Inr using False Some by simp
    qed
  qed
qed

theorem forward_affine_witness:
  "well_formed \<lparr>shape = [1, 2, 4], data = [1, 2, 3, 4, 5, 6, 7, 8 :: int]\<rparr> \<and>
   forward \<lparr>shape = [1, 2, 4], data = [1, 2, 3, 4, 5, 6, 7, 8 :: int]\<rparr>
     \<lparr>shape = [1, 1], data = [1]\<rparr> \<lparr>shape = [1, 1], data = [2]\<rparr>
     \<lparr>shape = [1, 1], data = [3]\<rparr> \<lparr>shape = [1, 1], data = [4]\<rparr>
     (Some \<lparr>shape = [4], data = [100, 200, 300, 400]\<rparr>)
   = Inr \<lparr>shape = [1, 2, 4], data = [72, 204, 306, 408, 40, 212, 330, 424]\<rparr>"
proof -
  let ?x = "\<lparr>shape = [1, 2, 4], data = [1, 2, 3, 4, 5, 6, 7, 8 :: int]\<rparr>"
  let ?r = "\<lparr>shape = [1, 1], data = [1 :: int]\<rparr>"
  let ?i = "\<lparr>shape = [1, 1], data = [2 :: int]\<rparr>"
  let ?j = "\<lparr>shape = [1, 1], data = [3 :: int]\<rparr>"
  let ?k = "\<lparr>shape = [1, 1], data = [4 :: int]\<rparr>"
  let ?b = "\<lparr>shape = [4], data = [100, 200, 300, 400 :: int]\<rparr>"
  have wx: "well_formed ?x" by (simp add: well_formed_def)
  have rank: "dim ?x = 2 \<or> dim ?x = 3" by (simp add: dim_def)
  have last: "last (shape ?x) = 4 * 1" by simp
  have w: "well_formed ?r" "well_formed ?i" "well_formed ?j" "well_formed ?k"
    by (simp_all add: well_formed_def)
  have s: "shape ?r = [1, 1]" "shape ?i = [1, 1]" "shape ?j = [1, 1]" "shape ?k = [1, 1]"
    by simp_all
  have b: "case Some ?b of None \<Rightarrow> True | Some b \<Rightarrow> well_formed b \<and> shape b = [4 * 1]"
    by (simp add: well_formed_def)
  have v: "affine ?x (4 * 1) (4 * 1) (encoding (rows ?r) (rows ?i) (rows ?j) (rows ?k))
             (map_option data (Some ?b))
           = \<lparr>shape = [1, 2, 4], data = [72, 204, 306, 408, 40, 212, 330, 424]\<rparr>"
    by code_simp
  from forward_affine [OF wx rank last w(1) s(1) w(2) s(2) w(3) s(3) w(4) s(4) b]
  show ?thesis unfolding v using wx by simp
qed

text \<open>
  The claim as the specification words it fails: with the horizontal and vertical
  directions as written there, the matrix \<open>encoding_spec\<close> gives another output.
\<close>

theorem forward_spec_layout_counterexample:
  "forward \<lparr>shape = [1, 4], data = [1, 0, 0, 0 :: int]\<rparr>
     \<lparr>shape = [1, 1], data = [0]\<rparr> \<lparr>shape = [1, 1], data = [1]\<rparr>
     \<lparr>shape = [1, 1], data = [0]\<rparr> \<lparr>shape = [1, 1], data = [0]\<rparr> None
   \<noteq> Inr (affine \<lparr>shape = [1, 4], data = [1, 0, 0, 0 :: int]\<rparr> 4 4
            (encoding_spec (rows \<lparr>shape = [1, 1], data = [0 :: int]\<rparr>)
                           (rows \<lparr>shape = [1, 1], data = [1 :: int]\<rparr>)
                           (rows \<lparr>shape = [1, 1], data = [0 :: int]\<rparr>)
                           (rows \<lparr>shape = [1, 1], data = [0 :: int]\<rparr>)) None)"
  by code_simp

lemma forward_is_quaternion_linear:
  "check_input input = Inr () \<Longrightarrow>
     forward input r_weight i_weight j_weight k_weight bias
       = quaternion_linear input r_weight i_weight j_weight k_weight bias"
  by (simp add: forward_def quaternion_linear_def)

section \<open>The backward pass\<close>

lemma bnd_eq_Inr: "(bnd m f = Inr v) = (\<exists>x. m = Inr x \<and> f x = Inr v)"
  by (cases m) simp_all

lemma grad_input_of_slot:
  "grad_input_of flag go kt = Inr g \<Longrightarrow> (g \<noteq> None) = flag"
  by (auto simp: grad_input_of_def bnd_eq_Inr split: if_splits)

lemma grad_weights_of_slot:
  "grad_weights_of flag gm im rw = Inr (a, b, c, d) \<Longrightarrow>
     (a \<noteq> None) = flag \<and> (b \<noteq> None) = flag \<and> (c \<noteq> None) = flag \<and> (d \<noteq> None) = flag"
  by (auto simp: grad_weights_of_def bnd_eq_Inr Let_def split: if_splits)

lemma grad_bias_of_slot: "(grad_bias_of flag go \<noteq> None) = flag"
  by (simp add: grad_bias_of_def)

lemma backward_tail:
  assumes "backward ctx go = Inr (gi, gr, gim, gj, gk, gb)"
  shows "\<exists>kt gm im f0 f1 f5.
           flag_at (needs_input_grad ctx) 0 = Inr f0 \<and>
           flag_at (needs_input_grad ctx) 1 = Inr f1 \<and>
           flag_at (needs_input_grad ctx) 5 = Inr f5 \<and>
           grad_input_of f0 go kt = Inr gi \<and>
           grad_weights_of f1 gm im (saved_r_weight ctx) = Inr (gr, gim, gj, gk) \<and>
           gb = grad_bias_of f5 go"
  using assms unfolding backward_def Let_def bnd_eq_Inr
  by (auto simp: bnd_eq_Inr split: prod.splits) blast+

text \<open>Whether a primitive returns, and the shape of what it returns, depend on shapes only.\<close>

lemma shape_tneg [simp]: "shape (tneg t) = shape t"
  by (simp add: tneg_def)

lemma cat0_shape:
  assumes "shape a = [n1, m]" "shape b = [n2, m]" "shape c = [n3, m]" "shape d = [n4, m]"
  shows "\<exists>t. cat [a, b, c, d] 0 = Inr t \<and> shape t = [n1 + n2 + n3 + n4, m]"
  using assms by (simp add: cat_def)

lemma cat1_shape:
  assumes "shape a = [n, m1]" "shape b = [n, m2]" "shape c = [n, m3]" "shape d = [n, m4]"
  shows "\<exists>t. cat [a, b, c, d] 1 = Inr t \<and> shape t = [n, m1 + m2 + m3 + m4]"
  using assms by (simp add: cat_def)

lemma permute10_shape:
  assumes "shape a = [n, m]"
  shows "\<exists>t. permute10 a = Inr t \<and> shape t = [m, n]"
  using assms by (simp add: permute10_def)

lemma mm_shape:
  assumes "shape a = [n, m]" "shape b = [m, p]"
  shows "\<exists>t. mm a b = Inr t \<and> shape t = [n, p]"
  using assms by (simp add: mm_def dim_def)

lemma narrow_shape:
  assumes "shape a = sh" "d < length sh" "s + l \<le> sh ! d"
  shows "\<exists>t. narrow d s l a = Inr t \<and> shape t = sh[d := l]"
  using assms by (simp add: narrow_def Let_def)

lemma getters_shape2:
  assumes "shape a = [B, 4 * H]"
  shows "\<exists>t. get_r a = Inr t \<and> shape t = [B, H]"
    and "\<exists>t. get_i a = Inr t \<and> shape t = [B, H]"
    and "\<exists>t. get_j a = Inr t \<and> shape t = [B, H]"
    and "\<exists>t. get_k a = Inr t \<and> shape t = [B, H]"
proof -
  have rank: "dim a = 2 \<or> dim a = 3" and last: "last (shape a) = 4 * H"
    using assms by (simp_all add: dim_def)
  show "\<exists>t. get_r a = Inr t \<and> shape t = [B, H]"
    using get_r_eq [OF rank last] assms by simp
  show "\<exists>t. get_i a = Inr t \<and> shape t = [B, H]"
    using get_i_eq [OF rank last] assms by simp
  show "\<exists>t. get_j a = Inr t \<and> shape t = [B, H]"
    using get_j_eq [OF rank last] assms by simp
  show "\<exists>t. get_k a = Inr t \<and> shape t = [B, H]"
    using get_k_eq [OF rank last] assms by simp
qed

lemma kernel_shape:
  fixes r :: "'a::uminus tensor"
  assumes "shape r = [F, G]" "shape i = [F, G]" "shape j = [F, G]" "shape k = [F, G]"
  shows "\<exists>t. cat_kernels_4_quaternion r i j k = Inr t \<and> shape t = [4 * F, 4 * G]"
proof -
  obtain c1 where c1: "cat [r, tneg i, tneg j, tneg k] 0 = Inr c1" "shape c1 = [F + F + F + F, G]"
    using cat0_shape [of r F G "tneg i" F "tneg j" F "tneg k" F] assms by auto
  obtain c2 where c2: "cat [i, r, tneg k, j] 0 = Inr c2" "shape c2 = [F + F + F + F, G]"
    using cat0_shape [of i F G r F "tneg k" F j F] assms by auto
  obtain c3 where c3: "cat [j, k, r, tneg i] 0 = Inr c3" "shape c3 = [F + F + F + F, G]"
    using cat0_shape [of j F G k F r F "tneg i" F] assms by auto
  obtain c4 where c4: "cat [k, tneg j, i, r] 0 = Inr c4" "shape c4 = [F + F + F + F, G]"
    using cat0_shape [of k F G "tneg j" F i F r F] assms by auto
  obtain t where t: "cat [c1, c2, c3, c4] 1 = Inr t" "shape t = [F + F + F + F, G + G + G + G]"
    using cat1_shape [OF c1(2) c2(2) c3(2) c4(2)] by auto
  have "shape t = [4 * F, 4 * G]" using t(2) by simp
  then show ?thesis
    unfolding cat_kernels_4_quaternion_def c1(1) c2(1) c3(1) c4(1) bnd_Inr using t(1) by simp
qed

lemma grad_input_of_returns:
  fixes go :: "'a::ring tensor"
  assumes "shape go = [B, 4 * G]" "shape kt = [4 * G, 4 * F]"
  shows "\<exists>g. grad_input_of flag go kt = Inr g"
  using mm_shape [OF assms] by (auto simp: grad_input_of_def)

lemma grad_weights_of_returns:
  fixes gm :: "'a::ring tensor"
  assumes gm: "shape gm = [4 * B, 4 * G]" and im: "shape im = [4 * B, 4 * F]"
    and rw: "shape rw = [F, G]"
  shows "\<exists>g. grad_weights_of flag gm im rw = Inr g"
proof (cases flag)
  case False
  then show ?thesis by (simp add: grad_weights_of_def)
next
  case True
  obtain gt where gt: "permute10 gm = Inr gt" "shape gt = [4 * G, 4 * B]"
    using permute10_shape [OF gm] by auto
  obtain pr where pr: "mm gt im = Inr pr" "shape pr = [4 * G, 4 * F]"
    using mm_shape [OF gt(2) im] by auto
  obtain gw where gw: "permute10 pr = Inr gw" "shape gw = [4 * F, 4 * G]"
    using permute10_shape [OF pr(2)] by auto
  obtain top where top: "narrow 0 0 F gw = Inr top" "shape top = [F, 4 * G]"
    using narrow_shape [OF gw(2), of 0 0 F] by auto
  obtain g1 where g1: "narrow (Suc 0) 0 G top = Inr g1"
    using narrow_shape [OF top(2), of "Suc 0" 0 G] by auto
  obtain g2 where g2: "narrow (Suc 0) G G top = Inr g2"
    using narrow_shape [OF top(2), of "Suc 0" G G] by auto
  obtain g3 where g3: "narrow (Suc 0) (G * 2) G top = Inr g3"
    using narrow_shape [OF top(2), of "Suc 0" "G * 2" G] by auto
  obtain g4 where g4: "narrow (Suc 0) (G * 3) G top = Inr g4"
    using narrow_shape [OF top(2), of "Suc 0" "G * 3" G] by auto
  show ?thesis
    unfolding grad_weights_of_def using True rw
    by (simp add: gt(1) pr(1) gw(1) top(1) g1 g2 g3 g4 dim_def)
qed

lemma backward_returns:
  fixes ctx :: "'a::ring ctx"
  assumes x: "shape (saved_input ctx) = [B, 4 * F]"
    and r: "shape (saved_r_weight ctx) = [F, G]" and i: "shape (saved_i_weight ctx) = [F, G]"
    and j: "shape (saved_j_weight ctx) = [F, G]" and k: "shape (saved_k_weight ctx) = [F, G]"
    and go: "shape grad_output = [B, 4 * G]"
    and six: "length (needs_input_grad ctx) = 6"
  shows "\<exists>res. backward ctx grad_output = Inr res"
proof -
  obtain K where K: "cat_kernels_4_quaternion (saved_r_weight ctx) (saved_i_weight ctx)
      (saved_j_weight ctx) (saved_k_weight ctx) = Inr K" "shape K = [4 * F, 4 * G]"
    using kernel_shape [OF r i j k] by auto
  obtain KT where KT: "permute10 K = Inr KT" "shape KT = [4 * G, 4 * F]"
    using permute10_shape [OF K(2)] by auto
  obtain xr where xr: "get_r (saved_input ctx) = Inr xr" "shape xr = [B, F]"
    using getters_shape2(1) [OF x] by auto
  obtain xi where xi: "get_i (saved_input ctx) = Inr xi" "shape xi = [B, F]"
    using getters_shape2(2) [OF x] by auto
  obtain xj where xj: "get_j (saved_input ctx) = Inr xj" "shape xj = [B, F]"
    using getters_shape2(3) [OF x] by auto
  obtain xk where xk: "get_k (saved_input ctx) = Inr xk" "shape xk = [B, F]"
    using getters_shape2(4) [OF x] by auto
  obtain i1 where i1: "cat [xr, tneg xi, tneg xj, tneg xk] 0 = Inr i1" "shape i1 = [B + B + B + B, F]"
    using cat0_shape [of xr B F "tneg xi" B "tneg xj" B "tneg xk" B] xr xi xj xk by auto
  obtain i2 where i2: "cat [xi, xr, tneg xk, xj] 0 = Inr i2" "shape i2 = [B + B + B + B, F]"
    using cat0_shape [of xi B F xr B "tneg xk" B xj B] xr xi xj xk by auto
  obtain i3 where i3: "cat [xj, xk, xr, tneg xi] 0 = Inr i3" "shape i3 = [B + B + B + B, F]"
    using cat0_shape [of xj B F xk B xr B "tneg xi" B] xr xi xj xk by auto
  obtain i4 where i4: "cat [xk, tneg xj, xi, xr] 0 = Inr i4" "shape i4 = [B + B + B + B, F]"
    using cat0_shape [of xk B F "tneg xj" B xi B xr B] xr xi xj xk by auto
  obtain im where im: "cat [i1, i2, i3, i4] 1 = Inr im" "shape im = [B + B + B + B, F + F + F + F]"
    using cat1_shape [OF i1(2) i2(2) i3(2) i4(2)] by auto
  obtain gr where gr: "get_r grad_output = Inr gr" "shape gr = [B, G]"
    using getters_shape2(1) [OF go] by auto
  obtain gi where gi: "get_i grad_output = Inr gi" "shape gi = [B, G]"
    using getters_shape2(2) [OF go] by auto
  obtain gj where gj: "get_j grad_output = Inr gj" "shape gj = [B, G]"
    using getters_shape2(3) [OF go] by auto
  obtain gk where gk: "get_k grad_output = Inr gk" "shape gk = [B, G]"
    using getters_shape2(4) [OF go] by auto
  obtain m1 where m1: "cat [gr, gi, gj, gk] 1 = Inr m1" "shape m1 = [B, G + G + G + G]"
    using cat1_shape [OF gr(2) gi(2) gj(2) gk(2)] by auto
  obtain m2 where m2: "cat [tneg gi, gr, gk, tneg gj] 1 = Inr m2" "shape m2 = [B, G + G + G + G]"
    using cat1_shape [of "tneg gi" B G gr G gk G "tneg gj" G] gr gi gj gk by auto
  obtain m3 where m3: "cat [tneg gj, tneg gk, gr, gi] 1 = Inr m3" "shape m3 = [B, G + G + G + G]"
    using cat1_shape [of "tneg gj" B G "tneg gk" G gr G gi G] gr gi gj gk by auto
  obtain m4 where m4: "cat [tneg gk, gj, tneg gi, gr] 1 = Inr m4" "shape m4 = [B, G + G + G + G]"
    using cat1_shape [of "tneg gk" B G gj G "tneg gi" G gr G] gr gi gj gk by auto
  obtain gm where gm: "cat [m1, m2, m3, m4] 0 = Inr gm"
      "shape gm = [B + B + B + B, G + G + G + G]"
    using cat0_shape [OF m1(2) m2(2) m3(2) m4(2)] by auto
  have gms: "shape gm = [4 * B, 4 * G]" and ims: "shape im = [4 * B, 4 * F]"
    using gm(2) im(2) by simp_all
  obtain g0 where g0: "grad_input_of (needs_input_grad ctx ! 0) grad_output KT = Inr g0"
    using grad_input_of_returns [OF go KT(2)] by auto
  obtain gw where gw: "grad_weights_of (needs_input_grad ctx ! 1) gm im (saved_r_weight ctx)
      = Inr gw"
    using grad_weights_of_returns [OF gms ims r] by blast
  have fl: "flag_at (needs_input_grad ctx) 0 = Inr (needs_input_grad ctx ! 0)"
    "flag_at (needs_input_grad ctx) 1 = Inr (needs_input_grad ctx ! 1)"
    "flag_at (needs_input_grad ctx) 5 = Inr (needs_input_grad ctx ! 5)"
    using six by (simp_all add: flag_at_def)
  show ?thesis
    unfolding backward_def Let_def
    using im(1) m1(1) m2(1) m3(1) m4(1) fl gw
    by (simp add: K(1) KT(1) xr(1) xi(1) xj(1) xk(1) i1(1) i2(1) i3(1) i4(1)
        gr(1) gi(1) gj(1) gk(1) gm(1) g0 split: prod.splits)
qed


text \<open>
  What a call that returns gives back: it has read the flags 0, 1 and 5, the gradient
  of the input follows flag 0, the gradients of all four weight blocks follow flag 1, and
  the gradient of the bias follows flag 5.
\<close>

lemma backward_returned_slots:
  fixes ctx :: "'a::ring ctx"
  assumes "backward ctx grad_output = Inr (gi, gr, gim, gj, gk, gb)"
  shows "6 \<le> length (needs_input_grad ctx) \<and>
         (gi \<noteq> None) = (needs_input_grad ctx ! 0) \<and>
         (gr \<noteq> None) = (needs_input_grad ctx ! 1) \<and>
         (gim \<noteq> None) = (needs_input_grad ctx ! 1) \<and>
         (gj \<noteq> None) = (needs_input_grad ctx ! 1) \<and>
         (gk \<noteq> None) = (needs_input_grad ctx ! 1) \<and>
         (gb \<noteq> None) = (needs_input_grad ctx ! 5)"
proof -
  obtain kt gm im f0 f1 f5 where
    f: "flag_at (needs_input_grad ctx) 0 = Inr f0" "flag_at (needs_input_grad ctx) 1 = Inr f1"
       "flag_at (needs_input_grad ctx) 5 = Inr f5"
    and a: "grad_input_of f0 grad_output kt = Inr gi"
    and b: "grad_weights_of f1 gm im (saved_r_weight ctx) = Inr (gr, gim, gj, gk)"
    and c: "gb = grad_bias_of f5 grad_output"
    using backward_tail [OF assms] by blast
  have l: "6 \<le> length (needs_input_grad ctx)"
    using f(3) by (simp add: flag_at_def split: if_splits)
  then have e: "f0 = needs_input_grad ctx ! 0" "f1 = needs_input_grad ctx ! 1"
    "f5 = needs_input_grad ctx ! 5"
    using f by (simp_all add: flag_at_def split: if_splits)
  show ?thesis
    using l grad_input_of_slot [OF a] grad_weights_of_slot [OF b] grad_bias_of_slot [of f5 grad_output]
    by (simp add: c e)
qed

text \<open>
  C5. The gradients of the weight blocks do not follow their own flags. With only the
  flag of \<open>i_weight\<close> set, \<open>backward\<close> returns \<open>None\<close> in the slot of \<open>i_weight\<close>; with only
  the flag of \<open>r_weight\<close> set, it returns tensors in the slots of \<open>i_weight\<close>, \<open>j_weight\<close>
  and \<open>k_weight\<close> too. And when the operator was applied without a bias, so that there
  are five flags, reading the flag of the bias raises.
\<close>

theorem backward_weight_flags_ignored:
  "backward
     \<lparr>saved_input = \<lparr>shape = [2, 4], data = [1, 2, 3, 4, 5, 6, 7, 8 :: int]\<rparr>,
      saved_r_weight = \<lparr>shape = [1, 1], data = [1]\<rparr>,
      saved_i_weight = \<lparr>shape = [1, 1], data = [2]\<rparr>,
      saved_j_weight = \<lparr>shape = [1, 1], data = [3]\<rparr>,
      saved_k_weight = \<lparr>shape = [1, 1], data = [4]\<rparr>,
      saved_bias = None,
      needs_input_grad = [False, False, True, False, False, False]\<rparr>
     \<lparr>shape = [2, 4], data = [1, 0, 0, 0, 0, 1, 0, 0]\<rparr>
   = Inr (None, None, None, None, None, None) \<and>
   backward
     \<lparr>saved_input = \<lparr>shape = [2, 4], data = [1, 2, 3, 4, 5, 6, 7, 8 :: int]\<rparr>,
      saved_r_weight = \<lparr>shape = [1, 1], data = [1]\<rparr>,
      saved_i_weight = \<lparr>shape = [1, 1], data = [2]\<rparr>,
      saved_j_weight = \<lparr>shape = [1, 1], data = [3]\<rparr>,
      saved_k_weight = \<lparr>shape = [1, 1], data = [4]\<rparr>,
      saved_bias = None,
      needs_input_grad = [False, True, False, False, False, False]\<rparr>
     \<lparr>shape = [2, 4], data = [1, 0, 0, 0, 0, 1, 0, 0]\<rparr>
   = Inr (None, Some \<lparr>shape = [1, 1], data = [7]\<rparr>, Some \<lparr>shape = [1, 1], data = [3]\<rparr>,
          Some \<lparr>shape = [1, 1], data = [5]\<rparr>, Some \<lparr>shape = [1, 1], data = [- 11]\<rparr>, None) \<and>
   backward
     \<lparr>saved_input = \<lparr>shape = [2, 4], data = [1, 2, 3, 4, 5, 6, 7, 8 :: int]\<rparr>,
      saved_r_weight = \<lparr>shape = [1, 1], data = [1]\<rparr>,
      saved_i_weight = \<lparr>shape = [1, 1], data = [2]\<rparr>,
      saved_j_weight = \<lparr>shape = [1, 1], data = [3]\<rparr>,
      saved_k_weight = \<lparr>shape = [1, 1], data = [4]\<rparr>,
      saved_bias = None,
      needs_input_grad = [True, True, True, True, True]\<rparr>
     \<lparr>shape = [2, 4], data = [1, 0, 0, 0, 0, 1, 0, 0]\<rparr>
   = Inl IndexError"
  by code_simp

text \<open>On matrices, the gradient of the input is \<open>grad_output\<close> times the transposed encoding.\<close>

lemma rows_ok_transpose:
  assumes "rows_ok [n] m E"
  shows "rows_ok [m] n (transpose_rows m E)"
  using assms by (simp add: rows_ok_def transpose_rows_def list_all_iff)

lemma permute10_rows:
  assumes ok: "rows_ok [n] m E"
  shows "permute10 (of_rows [n] m E) = Inr (of_rows [m] n (transpose_rows m E))"
proof -
  have all: "list_all (\<lambda>r. length r = m) E" and len: "length E = n"
    using ok by (simp_all add: rows_ok_def)
  have "map (\<lambda>j. map (\<lambda>i. concat E ! (i * m + j)) [0..<n]) [0..<m] = transpose_rows m E"
    unfolding transpose_rows_def len
    by (intro map_upt_cong) (simp add: nth_concat_uniform [OF all] len)
  then show ?thesis
    by (simp add: permute10_def of_rows_def)
qed

lemma backward_head:
  assumes "backward ctx go = Inr (gi, rest)"
  shows "\<exists>K kt. cat_kernels_4_quaternion (saved_r_weight ctx) (saved_i_weight ctx)
                   (saved_j_weight ctx) (saved_k_weight ctx) = Inr K \<and>
                 permute10 K = Inr kt \<and>
                 (\<exists>f0. flag_at (needs_input_grad ctx) 0 = Inr f0 \<and>
                       grad_input_of f0 go kt = Inr gi)"
  using assms unfolding backward_def Let_def bnd_eq_Inr
  by (auto simp: bnd_eq_Inr split: prod.splits)

lemma backward_grad_input_rank2:
  fixes ctx :: "'a::ring ctx"
  assumes r: "well_formed (saved_r_weight ctx)" "shape (saved_r_weight ctx) = [F, G]"
    and i: "well_formed (saved_i_weight ctx)" "shape (saved_i_weight ctx) = [F, G]"
    and j: "well_formed (saved_j_weight ctx)" "shape (saved_j_weight ctx) = [F, G]"
    and k: "well_formed (saved_k_weight ctx)" "shape (saved_k_weight ctx) = [F, G]"
    and go: "shape go = [B, 4 * G]"
    and flag: "flag_at (needs_input_grad ctx) 0 = Inr True"
    and res: "backward ctx go = Inr (gi, rest)"
  shows "gi = Some (affine go (4 * G) (4 * F)
                     (transpose_rows (4 * G)
                        (encoding (rows (saved_r_weight ctx)) (rows (saved_i_weight ctx))
                                  (rows (saved_j_weight ctx)) (rows (saved_k_weight ctx))))
                     None)"
proof -
  let ?E = "encoding (rows (saved_r_weight ctx)) (rows (saved_i_weight ctx))
                     (rows (saved_j_weight ctx)) (rows (saved_k_weight ctx))"
  note kn = kernel_weights [OF r i j k]
  obtain K kt where K: "cat_kernels_4_quaternion (saved_r_weight ctx) (saved_i_weight ctx)
                   (saved_j_weight ctx) (saved_k_weight ctx) = Inr K"
    and kt: "permute10 K = Inr kt"
    and g: "grad_input_of True go kt = Inr gi"
    using backward_head [OF res] flag by auto
  have "K = of_rows [4 * F] (4 * G) ?E" using K kn(1) by simp
  then have "kt = of_rows [4 * G] (4 * F) (transpose_rows (4 * G) ?E)"
    using kt permute10_rows [OF kn(2)] by simp
  then have "mm go kt = Inr (affine go (4 * G) (4 * F) (transpose_rows (4 * G) ?E) None)"
    using mm_rows [OF go rows_ok_transpose [OF kn(2)]] by simp
  then show ?thesis
    using g by (simp add: grad_input_of_def)
qed

text \<open>
  C2. On a rank-3 context the multiplication of \<open>grad_output\<close> by the transposed encoding
  is done with the matrix-only product, which raises: \<open>forward\<close> returns an output of
  shape \<open>[2, 2, 4]\<close>, and \<open>backward\<close> on a \<open>grad_output\<close> of that shape, with the gradient
  of the input requested, returns no gradient.
\<close>

theorem backward_rank3_grad_input_raises:
  "forward \<lparr>shape = [2, 2, 4],
            data = [1, 2, 3, 4, 5, 6, 7, 8, 9, 10, 11, 12, 13, 14, 15, 16 :: int]\<rparr>
     \<lparr>shape = [1, 1], data = [1]\<rparr> \<lparr>shape = [1, 1], data = [2]\<rparr>
     \<lparr>shape = [1, 1], data = [3]\<rparr> \<lparr>shape = [1, 1], data = [4]\<rparr>
     (Some \<lparr>shape = [4], data = [0, 0, 0, 0]\<rparr>)
   = Inr \<lparr>shape = [2, 2, 4],
          data = [- 28, 4, 6, 8, - 60, 12, 30, 24, - 92, 20, 54, 40, - 124, 28, 78, 56]\<rparr> \<and>
   backward
     \<lparr>saved_input = \<lparr>shape = [2, 2, 4],
                     data = [1, 2, 3, 4, 5, 6, 7, 8, 9, 10, 11, 12, 13, 14, 15, 16 :: int]\<rparr>,
      saved_r_weight = \<lparr>shape = [1, 1], data = [1]\<rparr>,
      saved_i_weight = \<lparr>shape = [1, 1], data = [2]\<rparr>,
      saved_j_weight = \<lparr>shape = [1, 1], data = [3]\<rparr>,
      saved_k_weight = \<lparr>shape = [1, 1], data = [4]\<rparr>,
      saved_bias = Some \<lparr>shape = [4], data = [0, 0, 0, 0]\<rparr>,
      needs_input_grad = [True, False, False, False, False, False]\<rparr>
     \<lparr>shape = [2, 2, 4],
      data = [1, 1, 1, 1, 10, 10, 10, 10, 100, 100, 100, 100, 1000, 1000, 1000, 1000]\<rparr>
   = Inl TorchError"
  by code_simp

text \<open>On matrices, the gradient of the bias is the sum of \<open>grad_output\<close> over the batch axis.\<close>

lemma backward_bias:
  assumes "backward ctx go = Inr (gi, gr, gim, gj, gk, gb)"
  shows "\<exists>f5. flag_at (needs_input_grad ctx) 5 = Inr f5 \<and> gb = grad_bias_of f5 go"
  using backward_tail [OF assms] by blast

lemma grad_bias_rank2:
  fixes go :: "'a::ring tensor"
  assumes wf: "well_formed go" and sh: "shape go = [B, 4 * G]"
  shows "grad_bias_of True go =
           Some \<lparr>shape = [4 * G],
                 data = map (\<lambda>c. sum_list (map (\<lambda>b. elem go b c) [0..<B])) [0..<4 * G]\<rparr>"
proof -
  have t: "go = tab [B] (4 * G) (\<lambda>x. rows go ! x)"
    and l: "\<And>x. x < B \<Longrightarrow> length (rows go ! x) = 4 * G"
    using rank2_tab [OF wf sh] by simp_all
  have "sum_dim0 go = \<lparr>shape = [4 * G],
          data = map (\<lambda>c. sum_list (map (\<lambda>b. rows go ! b ! c) [0..<B])) [0..<4 * G]\<rparr>"
    using sum_dim0_tab2 [of B "\<lambda>x. rows go ! x" "4 * G", OF l] t by simp
  then show ?thesis
    by (simp add: grad_bias_of_def squeeze0_def elem_def)
qed

lemma grad_bias_rank3_shape:
  fixes go :: "'a::ring tensor"
  assumes sh: "shape go = [B, S, N]" and S: "S \<noteq> 1"
  shows "\<exists>t. grad_bias_of True go = Some t \<and> shape t = [S, N]"
  using assms by (simp add: grad_bias_of_def squeeze0_def sum_dim0_def)

text \<open>
  C4. On a rank-3 context the gradient of the bias is summed over the batch axis only:
  for a \<open>grad_output\<close> of shape \<open>[2, 2, 4]\<close> it has shape \<open>[2, 4]\<close>, not the shape \<open>[4]\<close> of
  the bias.
\<close>

theorem backward_rank3_grad_bias_shape:
  "backward
     \<lparr>saved_input = \<lparr>shape = [2, 2, 4],
                     data = [1, 2, 3, 4, 5, 6, 7, 8, 9, 10, 11, 12, 13, 14, 15, 16 :: int]\<rparr>,
      saved_r_weight = \<lparr>shape = [1, 1], data = [1]\<rparr>,
      saved_i_weight = \<lparr>shape = [1, 1], data = [2]\<rparr>,
      saved_j_weight = \<lparr>shape = [1, 1], data = [3]\<rparr>,
      saved_k_weight = \<lparr>shape = [1, 1], data = [4]\<rparr>,
      saved_bias = Some \<lparr>shape = [4], data = [0, 0, 0, 0]\<rparr>,
      needs_input_grad = [False, False, False, False, False, True]\<rparr>
     \<lparr>shape = [2, 2, 4],
      data = [1, 1, 1, 1, 10, 10, 10, 10, 100, 100, 100, 100, 1000, 1000, 1000, 1000]\<rparr>
   = Inr (None, None, None, None, None,
          Some \<lparr>shape = [2, 4], data = [101, 101, 101, 101, 1010, 1010, 1010, 1010]\<rparr>)"
  by code_simp

section \<open>Weight initialisers and the random source\<close>

lemma unitary_init_any_rng:
  "unitary_init uniform in_features out_features rng criterion global
     = unitary_init uniform in_features out_features rng' criterion global"
  by (simp add: unitary_init_def)

lemma quaternion_init_any_rng:
  "quaternion_init uniform random_state in_features out_features rng criterion global
     = quaternion_init uniform random_state in_features out_features rng' criterion global"
  by (simp add: quaternion_init_def)

lemma unitary_init_first_call:
  "unitary_init tape_uniform 1 1 rng ''glorot'' [0, 0, 0, 0, 1 / 2, 1 / 2, 1 / 2, 1 / 2]
     = Inr ((\<lparr>shape = [1, 1], data = [0]\<rparr>, \<lparr>shape = [1, 1], data = [0]\<rparr>,
             \<lparr>shape = [1, 1], data = [0]\<rparr>, \<lparr>shape = [1, 1], data = [0]\<rparr>),
            [1 / 2, 1 / 2, 1 / 2, 1 / 2])"
  by (simp add: unitary_init_def criterion_scale_def tape_uniform_def unitary_step_def
      reshape_def tmul_scalar_def Let_def)

lemma unitary_init_second_call:
  "unitary_init tape_uniform 1 1 rng ''glorot'' [1 / 2, 1 / 2, 1 / 2, 1 / 2]
     = Inr ((\<lparr>shape = [1, 1], data = [2500 / 10001]\<rparr>, \<lparr>shape = [1, 1], data = [2500 / 10001]\<rparr>,
             \<lparr>shape = [1, 1], data = [2500 / 10001]\<rparr>, \<lparr>shape = [1, 1], data = [2500 / 10001]\<rparr>),
            [])"
proof -
  have s: "sqrt 4 = 2" using real_sqrt_abs [of 2] by simp
  show ?thesis
    by (simp add: unitary_init_def criterion_scale_def tape_uniform_def unitary_step_def
        reshape_def tmul_scalar_def power2_eq_square s Let_def)
qed

text \<open>
  C8. The initialisers never read the generator they are given: \<open>unitary_init\<close> draws
  from the process-wide generator, so two calls with the same arguments, one after the
  other, return different blocks, while a call with another \<open>rng\<close> returns the same
  blocks. Here the process-wide generator will produce the variates
  \<open>0, 0, 0, 0, 1/2, 1/2, 1/2, 1/2\<close>.
\<close>

theorem unitary_init_two_calls_differ:
  "unitary_init tape_uniform 1 1 [7 / 10] ''glorot'' [0, 0, 0, 0, 1 / 2, 1 / 2, 1 / 2, 1 / 2]
     = Inr ((\<lparr>shape = [1, 1], data = [0]\<rparr>, \<lparr>shape = [1, 1], data = [0]\<rparr>,
             \<lparr>shape = [1, 1], data = [0]\<rparr>, \<lparr>shape = [1, 1], data = [0]\<rparr>),
            [1 / 2, 1 / 2, 1 / 2, 1 / 2]) \<and>
   unitary_init tape_uniform 1 1 [7 / 10] ''glorot'' [1 / 2, 1 / 2, 1 / 2, 1 / 2]
     = Inr ((\<lparr>shape = [1, 1], data = [2500 / 10001]\<rparr>, \<lparr>shape = [1, 1], data = [2500 / 10001]\<rparr>,
             \<lparr>shape = [1, 1], data = [2500 / 10001]\<rparr>, \<lparr>shape = [1, 1], data = [2500 / 10001]\<rparr>),
            []) \<and>
   unitary_init tape_uniform 1 1 [9 / 10] ''glorot'' [0, 0, 0, 0, 1 / 2, 1 / 2, 1 / 2, 1 / 2]
     = unitary_init tape_uniform 1 1 [7 / 10] ''glorot'' [0, 0, 0, 0, 1 / 2, 1 / 2, 1 / 2, 1 / 2] \<and>
   (2500 / 10001 :: real) \<noteq> 0"
  using unitary_init_first_call [of "[7 / 10]"] unitary_init_second_call [of "[7 / 10]"]
    unitary_init_any_rng [of tape_uniform 1 1 "[9 / 10]" "''glorot''"
      "[0, 0, 0, 0, 1 / 2, 1 / 2, 1 / 2, 1 / 2]" "[7 / 10]"]
  by simp

end
